theory Spec2Isabelle
  imports Complex_Main "HOL-Library.Multiset"
begin

section \<open>Data model (order\_book.py)\<close>

text \<open>
  The enums \<open>OrderType\<close> and \<open>OrderSide\<close> and the dataclasses \<open>Order\<close> and \<open>Trade\<close>.
  Python floats are used for prices and timestamps; the book only compares and negates
  them, which is exact on finite floats, so they are modelled as rationals. An absent
  price (\<open>None\<close>) is \<open>None\<close>. Quantities are Python's unbounded integers.
  \<open>Trade.trade_id\<close> (a fresh uuid4) and \<open>Trade.timestamp\<close> (the wall clock) are chosen
  by the environment and read by nothing in the book; they are left out of the record.
\<close>

datatype OrderType = MARKET | LIMIT | CANCEL

datatype OrderSide = BUY | SELL

record Order =
  order_id :: string
  client_id :: string
  symbol :: string
  side :: OrderSide
  order_type :: OrderType
  quantity :: int
  price :: "rat option"
  timestamp :: rat

record Trade =
  buy_order_id :: string
  sell_order_id :: string
  trade_symbol :: string
  trade_quantity :: int
  trade_price :: rat

text \<open>
  The exceptions the book can raise: comparing two \<open>Order\<close> objects with \<open><\<close> (the
  dataclass defines no ordering), arithmetic or comparison on a \<open>None\<close> price, deleting a
  missing key, popping an empty list.
\<close>

datatype error = TypeError | KeyError | IndexError

text \<open>
  A heap entry is the tuple \<open>(price, timestamp, order)\<close>. The third component is a
  reference to an \<open>Order\<close> object that \<open>orders_by_id\<close> may reference too and whose
  \<open>quantity\<close> the matcher updates in place, so it is an address into the list of
  allocated objects.
\<close>

type_synonym entry = "rat \<times> rat \<times> nat"

record OrderBook =
  book_symbol :: string
  buy_orders :: "entry list"
  sell_orders :: "entry list"
  orders_by_id :: "string \<rightharpoonup> nat"
  client_orders :: "string \<Rightarrow> string list"
  trades :: "Trade list"
  total_volume :: int
  total_trades :: int
  objects :: "Order list"

text \<open>\<open>OrderBook.__init__\<close>.\<close>

definition new_book :: "string \<Rightarrow> OrderBook" where
  "new_book s =
     \<lparr>book_symbol = s, buy_orders = [], sell_orders = [], orders_by_id = Map.empty,
      client_orders = (\<lambda>_. []), trades = [], total_volume = 0, total_trades = 0,
      objects = []\<rparr>"

section \<open>The heapq operations on a list of entries\<close>

text \<open>
  Python compares the tuples lexicographically: the first position where the two
  differ (by \<open>==\<close>) decides by \<open><\<close>. Prices and timestamps are numbers; at the third
  position the dataclass \<open>__eq__\<close> compares all fields, and \<open><\<close> on two unequal orders
  raises TypeError.
\<close>

definition tuple_lt :: "Order list \<Rightarrow> entry \<Rightarrow> entry \<Rightarrow> error + bool" where
  "tuple_lt objs x y =
     (case x of (p1, t1, a1) \<Rightarrow> case y of (p2, t2, a2) \<Rightarrow>
        if p1 \<noteq> p2 then Inr (p1 < p2)
        else if t1 \<noteq> t2 then Inr (t1 < t2)
        else if objs ! a1 = objs ! a2 then Inr False
        else Inl TypeError)"

definition exchange :: "nat \<Rightarrow> nat \<Rightarrow> 'a list \<Rightarrow> 'a list" where
  "exchange i j xs = xs[i := xs ! j, j := xs ! i]"

text \<open>
  \<open>_siftdown(heap, startpos, pos)\<close>: the item at \<open>pos\<close> moves towards \<open>startpos\<close> while
  it is smaller than its parent. The list is written with swaps, as the C accelerator
  of heapq does; the pure Python version holds the moving item aside, makes the same
  comparisons and ends with the same list.
\<close>

function siftdown :: "Order list \<Rightarrow> entry list \<Rightarrow> nat \<Rightarrow> nat \<Rightarrow> error + entry list" where
  "siftdown objs heap startpos pos =
     (if pos > startpos then
        (let parentpos = (pos - 1) div 2 in
         case tuple_lt objs (heap ! pos) (heap ! parentpos) of
           Inl e \<Rightarrow> Inl e
         | Inr lt \<Rightarrow>
             if lt then siftdown objs (exchange pos parentpos heap) startpos parentpos
             else Inr heap)
      else Inr heap)"
  by pat_completeness auto
termination
  by (relation "measure (\<lambda>(objs, heap, startpos, pos). pos)") auto

declare siftdown.simps [simp del]

text \<open>
  The first loop of \<open>_siftup(heap, pos)\<close>: the smaller child moves up until the item
  reaches a leaf; the right child is taken unless the left one is smaller.
\<close>

definition smaller_child :: "Order list \<Rightarrow> entry list \<Rightarrow> nat \<Rightarrow> error + nat" where
  "smaller_child objs heap pos =
     (let childpos = 2 * pos + 1; rightpos = childpos + 1 in
      if rightpos < length heap
      then (case tuple_lt objs (heap ! childpos) (heap ! rightpos) of
              Inl e \<Rightarrow> Inl e
            | Inr lt \<Rightarrow> Inr (if \<not> lt then rightpos else childpos))
      else Inr childpos)"

function bubble :: "Order list \<Rightarrow> entry list \<Rightarrow> nat \<Rightarrow> error + (entry list \<times> nat)" where
  "bubble objs heap pos =
     (if 2 * pos + 1 < length heap then
        (case smaller_child objs heap pos of
           Inl e \<Rightarrow> Inl e
         | Inr c \<Rightarrow> bubble objs (exchange pos c heap) c)
      else Inr (heap, pos))"
  by pat_completeness auto
termination
  by (relation "measure (\<lambda>(objs, heap, pos). length heap - pos)")
     (auto simp: exchange_def smaller_child_def Let_def split: if_splits sum.splits)

declare bubble.simps [simp del]

definition siftup :: "Order list \<Rightarrow> entry list \<Rightarrow> nat \<Rightarrow> error + entry list" where
  "siftup objs heap pos =
     (case bubble objs heap pos of
        Inl e \<Rightarrow> Inl e
      | Inr (heap', leaf) \<Rightarrow> siftdown objs heap' pos leaf)"

definition heappush :: "Order list \<Rightarrow> entry list \<Rightarrow> entry \<Rightarrow> error + entry list" where
  "heappush objs heap item = siftdown objs (heap @ [item]) 0 (length heap)"

definition heappop :: "Order list \<Rightarrow> entry list \<Rightarrow> error + (entry \<times> entry list)" where
  "heappop objs heap =
     (if heap = [] then Inl IndexError
      else
        let lastelt = last heap; heap1 = butlast heap in
        if heap1 \<noteq> [] then
          (case siftup objs (heap1[0 := lastelt]) 0 of
             Inl e \<Rightarrow> Inl e
           | Inr heap2 \<Rightarrow> Inr (hd heap1, heap2))
        else Inr (lastelt, []))"

text \<open>\<open>heapify\<close>: \<open>for i in reversed(range(n//2)): _siftup(x, i)\<close>.\<close>

fun heapify_from :: "Order list \<Rightarrow> entry list \<Rightarrow> nat \<Rightarrow> error + entry list" where
  "heapify_from objs x 0 = Inr x"
| "heapify_from objs x (Suc i) =
     (case siftup objs x i of
        Inl e \<Rightarrow> Inl e
      | Inr x' \<Rightarrow> heapify_from objs x' i)"

definition heapify :: "Order list \<Rightarrow> entry list \<Rightarrow> error + entry list" where
  "heapify objs x = heapify_from objs x (length x div 2)"


subsection \<open>Case rules for the sifting loops\<close>

lemma siftdown_cases:
  assumes "siftdown objs heap startpos pos = Inr heap'"
  obtains (stop) "\<not> startpos < pos" "heap' = heap"
  | (fits) "startpos < pos" "tuple_lt objs (heap ! pos) (heap ! ((pos - 1) div 2)) = Inr False"
      "heap' = heap"
  | (up) "startpos < pos" "tuple_lt objs (heap ! pos) (heap ! ((pos - 1) div 2)) = Inr True"
      "siftdown objs (exchange pos ((pos - 1) div 2) heap) startpos ((pos - 1) div 2) = Inr heap'"
  using assms
  by (subst (asm) siftdown.simps) (auto simp: Let_def split: if_splits sum.splits)

lemma smaller_child_range:
  "smaller_child objs heap pos = Inr c \<Longrightarrow> 2 * pos + 1 < length heap \<Longrightarrow>
   (c = 2 * pos + 1 \<or> c = 2 * pos + 2) \<and> c < length heap"
  by (auto simp: smaller_child_def Let_def split: if_splits sum.splits)

lemma bubble_cases:
  assumes "bubble objs heap pos = Inr (heap', leaf)"
  obtains (leaf) "\<not> 2 * pos + 1 < length heap" "heap' = heap" "leaf = pos"
  | (down) c where "2 * pos + 1 < length heap" "smaller_child objs heap pos = Inr c"
      "bubble objs (exchange pos c heap) c = Inr (heap', leaf)"
  using assms
  by (subst (asm) bubble.simps) (auto split: if_splits sum.splits)

subsection \<open>The heapq operations keep the length and the elements\<close>

lemma length_exchange [simp]: "length (exchange i j xs) = length xs"
  by (simp add: exchange_def)

lemma mset_exchange [simp]:
  "i < length xs \<Longrightarrow> j < length xs \<Longrightarrow> mset (exchange i j xs) = mset xs"
  by (simp add: exchange_def mset_swap)

lemma siftdown_mset:
  "siftdown objs heap startpos pos = Inr heap' \<Longrightarrow> pos < length heap \<Longrightarrow> mset heap' = mset heap"
proof (induction pos arbitrary: heap rule: less_induct)
  case (less pos)
  from less.prems(1) show ?case
  proof (cases rule: siftdown_cases)
    case up
    have pp: "(pos - 1) div 2 < pos" using up(1) by arith
    with less.IH [OF pp up(3)] less.prems(2) show ?thesis by simp
  qed simp_all
qed

lemma bubble_mset:
  "bubble objs heap pos = Inr (heap', leaf) \<Longrightarrow> pos < length heap \<Longrightarrow>
   mset heap' = mset heap \<and> leaf < length heap"
proof (induction "length heap - pos" arbitrary: heap pos rule: less_induct)
  case less
  from less.prems(1) show ?case
  proof (cases rule: bubble_cases)
    case leaf
    with less.prems(2) show ?thesis by simp
  next
    case (down c)
    from smaller_child_range [OF down(2,1)] have c: "pos < c" "c < length heap" by auto
    then have "length (exchange pos c heap) - c < length heap - pos" by simp
    from less.hyps [OF this down(3)] c less.prems(2) show ?thesis by simp
  qed
qed

lemma siftup_mset:
  "siftup objs heap pos = Inr heap' \<Longrightarrow> pos < length heap \<Longrightarrow> mset heap' = mset heap"
proof -
  assume a: "siftup objs heap pos = Inr heap'" and p: "pos < length heap"
  then obtain h1 leaf where b: "bubble objs heap pos = Inr (h1, leaf)"
    and s: "siftdown objs h1 pos leaf = Inr heap'"
    by (auto simp: siftup_def split: sum.splits)
  from bubble_mset [OF b p] have m: "mset h1 = mset heap" and l: "leaf < length heap" by auto
  from m have "length h1 = length heap" by (rule mset_eq_length)
  with siftdown_mset [OF s] l m show ?thesis by simp
qed

lemma heappush_mset: "heappush objs heap item = Inr heap' \<Longrightarrow> mset heap' = mset heap + {#item#}"
  by (auto simp: heappush_def dest: siftdown_mset)

lemma heappop_mset:
  assumes "heappop objs heap = Inr (x, heap')"
  shows "heap \<noteq> [] \<and> x = hd heap \<and> mset heap = mset heap' + {#x#}"
proof -
  from assms have ne: "heap \<noteq> []" by (auto simp: heappop_def)
  then obtain ys y where h: "heap = ys @ [y]" by (metis rev_exhaust)
  show ?thesis
  proof (cases ys)
    case Nil
    with assms h show ?thesis by (simp add: heappop_def)
  next
    case (Cons z zs)
    with assms h have "siftup objs (y # zs) 0 = Inr heap'" and x: "x = z"
      by (auto simp: heappop_def split: sum.splits)
    then have "mset heap' = mset (y # zs)" by (auto dest: siftup_mset)
    with h Cons x show ?thesis by simp
  qed
qed

lemma heappop_length: "heappop objs heap = Inr (x, heap') \<Longrightarrow> length heap' < length heap"
proof -
  assume "heappop objs heap = Inr (x, heap')"
  then have "mset heap = mset heap' + {#x#}" by (auto dest: heappop_mset)
  then have "size (mset heap) = size (mset heap') + 1" by simp
  then show ?thesis by simp
qed

lemma heapify_from_mset:
  "heapify_from objs x n = Inr x' \<Longrightarrow> n \<le> length x \<Longrightarrow> mset x' = mset x"
proof (induction n arbitrary: x)
  case 0
  then show ?case by simp
next
  case (Suc n)
  from Suc.prems obtain y where y: "siftup objs x n = Inr y" and r: "heapify_from objs y n = Inr x'"
    by (auto split: sum.splits)
  from y Suc.prems(2) have m: "mset y = mset x" by (auto dest: siftup_mset)
  then have "length y = length x" by (metis size_mset)
  with Suc.IH [OF r] Suc.prems(2) m show ?case by simp
qed

lemma heapify_mset: "heapify objs x = Inr x' \<Longrightarrow> mset x' = mset x"
  by (auto simp: heapify_def dest: heapify_from_mset)

subsection \<open>The heap invariant\<close>

definition key_le :: "entry \<Rightarrow> entry \<Rightarrow> bool" where
  "key_le x y = (fst x < fst y \<or> (fst x = fst y \<and> fst (snd x) \<le> fst (snd y)))"

definition heap_from :: "nat \<Rightarrow> entry list \<Rightarrow> bool" where
  "heap_from s xs =
     (\<forall>j < length xs. 0 < j \<and> s \<le> (j - 1) div 2 \<longrightarrow> key_le (xs ! ((j - 1) div 2)) (xs ! j))"

definition is_heap :: "entry list \<Rightarrow> bool" where
  "is_heap xs = (\<forall>j < length xs. 0 < j \<longrightarrow> key_le (xs ! ((j - 1) div 2)) (xs ! j))"

definition heap_except_down :: "nat \<Rightarrow> nat \<Rightarrow> entry list \<Rightarrow> bool" where
  "heap_except_down s p xs =
     ((\<forall>j < length xs. 0 < j \<and> s \<le> (j - 1) div 2 \<and> j \<noteq> p \<and> (j - 1) div 2 \<noteq> p \<longrightarrow>
          key_le (xs ! ((j - 1) div 2)) (xs ! j)) \<and>
      (0 < p \<and> s \<le> (p - 1) div 2 \<longrightarrow>
         (\<forall>j < length xs. 0 < j \<and> (j - 1) div 2 = p \<longrightarrow> key_le (xs ! ((p - 1) div 2)) (xs ! j))))"

definition heap_except_up :: "nat \<Rightarrow> nat \<Rightarrow> entry list \<Rightarrow> bool" where
  "heap_except_up s p xs =
     ((\<forall>j < length xs. 0 < j \<and> s \<le> (j - 1) div 2 \<and> j \<noteq> p \<longrightarrow>
          key_le (xs ! ((j - 1) div 2)) (xs ! j)) \<and>
      (0 < p \<and> s \<le> (p - 1) div 2 \<longrightarrow>
         (\<forall>j < length xs. 0 < j \<and> (j - 1) div 2 = p \<longrightarrow> key_le (xs ! ((p - 1) div 2)) (xs ! j))))"

inductive below :: "nat \<Rightarrow> nat \<Rightarrow> bool" for s where
  below_self: "below s s"
| below_child: "below s p \<Longrightarrow> c = 2 * p + 1 \<or> c = 2 * p + 2 \<Longrightarrow> below s c"

lemma key_le_refl [simp]: "key_le x x"
  by (simp add: key_le_def)

lemma key_le_trans: "key_le x y \<Longrightarrow> key_le y z \<Longrightarrow> key_le x z"
  by (auto simp: key_le_def)

lemma key_le_total: "key_le x y \<or> key_le y x"
  by (auto simp: key_le_def)

lemma tuple_lt_True: "tuple_lt objs x y = Inr True \<Longrightarrow> key_le x y"
  by (auto simp: tuple_lt_def key_le_def split: prod.splits if_splits)

lemma tuple_lt_False: "tuple_lt objs x y = Inr False \<Longrightarrow> key_le y x"
  by (auto simp: tuple_lt_def key_le_def split: prod.splits if_splits)

lemma is_heap_heap_from: "is_heap xs = heap_from 0 xs"
  by (simp add: is_heap_def heap_from_def)

lemma below_ge: "below s p \<Longrightarrow> s \<le> p"
  by (induction rule: below.induct) auto

lemma below_parent: "below s p \<Longrightarrow> p \<noteq> s \<Longrightarrow> s \<le> (p - 1) div 2 \<and> below s ((p - 1) div 2) \<and> 0 < p"
proof (induction rule: below.cases)
  case below_self
  then show ?case by simp
next
  case (below_child q c)
  then have "(p - 1) div 2 = q" by auto
  with below_child below_ge [of s q] show ?case by auto
qed

lemma below_0: "below 0 p"
proof (induction p rule: less_induct)
  case (less p)
  show ?case
  proof (cases "p = 0")
    case True
    then show ?thesis by (simp add: below_self)
  next
    case False
    then have "(p - 1) div 2 < p" by arith
    from less [OF this] have b: "below 0 ((p - 1) div 2)" .
    from False have "p = 2 * ((p - 1) div 2) + 1 \<or> p = 2 * ((p - 1) div 2) + 2" by arith
    with b show ?thesis by (rule below_child)
  qed
qed

lemma is_heap_top:
  assumes "is_heap xs" "j < length xs"
  shows "key_le (xs ! 0) (xs ! j)"
  using assms(2)
proof (induction j rule: less_induct)
  case (less j)
  show ?case
  proof (cases "j = 0")
    case True
    then show ?thesis by simp
  next
    case False
    then have pj: "(j - 1) div 2 < j" by arith
    with less.prems have "(j - 1) div 2 < length xs" by simp
    from less.IH [OF pj this] have "key_le (xs ! 0) (xs ! ((j - 1) div 2))" .
    moreover from assms(1) less.prems False have "key_le (xs ! ((j - 1) div 2)) (xs ! j)"
      by (simp add: is_heap_def)
    ultimately show ?thesis by (rule key_le_trans)
  qed
qed

lemma smaller_child_le:
  assumes "smaller_child objs xs p = Inr c" "2 * p + 1 < length xs"
    "j < length xs" "0 < j" "(j - 1) div 2 = p"
  shows "key_le (xs ! c) (xs ! j)"
proof -
  from assms(4,5) have j: "j = 2 * p + 1 \<or> j = 2 * p + 2" by arith
  show ?thesis
  proof (cases "2 * p + 2 < length xs")
    case False
    with assms(1,3) j show ?thesis by (auto simp: smaller_child_def)
  next
    case True
    then obtain lt where lt: "tuple_lt objs (xs ! (2 * p + 1)) (xs ! (2 * p + 2)) = Inr lt"
      using assms(1) by (auto simp: smaller_child_def Let_def split: sum.splits)
    show ?thesis
    proof (cases lt)
      case True
      with lt \<open>2 * p + 2 < length xs\<close> assms(1) have "c = 2 * p + 1"
        by (simp add: smaller_child_def Let_def)
      with j tuple_lt_True [of objs "xs ! (2 * p + 1)" "xs ! (2 * p + 2)"] lt True
      show ?thesis by auto
    next
      case False
      with lt \<open>2 * p + 2 < length xs\<close> assms(1) have "c = 2 * p + 2"
        by (simp add: smaller_child_def Let_def)
      with j tuple_lt_False [of objs "xs ! (2 * p + 1)" "xs ! (2 * p + 2)"] lt False
      show ?thesis by auto
    qed
  qed
qed

lemma nth_exchange:
  "i < length xs \<Longrightarrow> j < length xs \<Longrightarrow> k < length xs \<Longrightarrow>
   exchange i j xs ! k = (if k = j then xs ! i else if k = i then xs ! j else xs ! k)"
  by (simp add: exchange_def nth_list_update)

lemma bubble_step:
  assumes inv: "heap_except_down s p xs" and sp: "s \<le> p" and c: "c < length xs" "0 < c"
    "(c - 1) div 2 = p"
    and least: "\<And>j. j < length xs \<Longrightarrow> 0 < j \<Longrightarrow> (j - 1) div 2 = p \<Longrightarrow> key_le (xs ! c) (xs ! j)"
  shows "heap_except_down s c (exchange p c xs)"
proof -
  let ?ys = "exchange p c xs"
  from c have pc: "p < c" by arith
  with c have pl: "p < length xs" by simp
  have nth: "\<And>k. k < length xs \<Longrightarrow>
      ?ys ! k = (if k = c then xs ! p else if k = p then xs ! c else xs ! k)"
    using nth_exchange [OF pl c(1)] by simp
  have a: "key_le (?ys ! ((j - 1) div 2)) (?ys ! j)"
    if j: "j < length xs" "0 < j" "s \<le> (j - 1) div 2" "j \<noteq> c" "(j - 1) div 2 \<noteq> c" for j
  proof -
    from j have pj: "(j - 1) div 2 < length xs" "(j - 1) div 2 < j" by arith+
    show ?thesis
    proof (cases "j = p")
      case True
      with j pj have "0 < p" "s \<le> (p - 1) div 2" by auto
      with inv c have "key_le (xs ! ((p - 1) div 2)) (xs ! c)"
        by (simp add: heap_except_down_def)
      with True j pj nth show ?thesis by simp
    next
      case jp: False
      show ?thesis
      proof (cases "(j - 1) div 2 = p")
        case True
        with least [OF j(1,2)] j jp pj nth show ?thesis by simp
      next
        case False
        with inv j jp have "key_le (xs ! ((j - 1) div 2)) (xs ! j)"
          by (simp add: heap_except_down_def)
        with False j jp pj nth show ?thesis by simp
      qed
    qed
  qed
  have b: "key_le (?ys ! ((c - 1) div 2)) (?ys ! j)"
    if j: "j < length xs" "0 < j" "(j - 1) div 2 = c" for j
  proof -
    from j pc have jc: "c < j" "j \<noteq> p" "j \<noteq> c" by arith+
    have "\<forall>j<length xs. 0 < j \<and> s \<le> (j - 1) div 2 \<and> j \<noteq> p \<and> (j - 1) div 2 \<noteq> p \<longrightarrow>
          key_le (xs ! ((j - 1) div 2)) (xs ! j)"
      using inv unfolding heap_except_down_def by blast
    with j jc sp pc have "key_le (xs ! ((j - 1) div 2)) (xs ! j)" by auto
    with jc j c pl nth show ?thesis by simp
  qed
  show ?thesis
    unfolding heap_except_down_def using a b by simp
qed

lemma siftdown_step:
  assumes inv: "heap_except_up s p xs" and p: "p < length xs" "0 < p" "s \<le> (p - 1) div 2"
    and lt: "key_le (xs ! p) (xs ! ((p - 1) div 2))"
  shows "heap_except_up s ((p - 1) div 2) (exchange p ((p - 1) div 2) xs)"
proof -
  define q where "q = (p - 1) div 2"
  let ?ys = "exchange p q xs"
  from p have qp: "q < p" unfolding q_def by arith
  with p have ql: "q < length xs" by simp
  have nth: "\<And>k. k < length xs \<Longrightarrow>
      ?ys ! k = (if k = q then xs ! p else if k = p then xs ! q else xs ! k)"
    using nth_exchange [OF p(1) ql] by simp
  have old: "key_le (xs ! ((j - 1) div 2)) (xs ! j)"
    if "j < length xs" "0 < j" "s \<le> (j - 1) div 2" "j \<noteq> p" for j
    using inv that by (simp add: heap_except_up_def)
  have grand: "key_le (xs ! q) (xs ! j)" if "j < length xs" "0 < j" "(j - 1) div 2 = p" for j
    using inv that p by (simp add: heap_except_up_def q_def)
  have a: "key_le (?ys ! ((j - 1) div 2)) (?ys ! j)"
    if j: "j < length xs" "0 < j" "s \<le> (j - 1) div 2" "j \<noteq> q" for j
  proof -
    from j have pj: "(j - 1) div 2 < length xs" "(j - 1) div 2 < j" by arith+
    consider "j = p" | "j \<noteq> p" "(j - 1) div 2 = p" | "j \<noteq> p" "(j - 1) div 2 = q"
      | "j \<noteq> p" "(j - 1) div 2 \<noteq> p" "(j - 1) div 2 \<noteq> q" by blast
    then show ?thesis
    proof cases
      case 1
      with lt j pj nth qp show ?thesis by (simp add: q_def)
    next
      case 2
      with grand [OF j(1,2)] j pj nth qp show ?thesis by simp
    next
      case 3
      from old [OF j(1,2,3) 3(1)] 3 have "key_le (xs ! q) (xs ! j)" by simp
      with lt have "key_le (xs ! p) (xs ! j)" unfolding q_def by (rule key_le_trans)
      with 3 j pj nth show ?thesis by simp
    next
      case 4
      with old [OF j(1,2,3)] j pj nth show ?thesis by simp
    qed
  qed
  have b: "key_le (?ys ! ((q - 1) div 2)) (?ys ! j)"
    if q: "0 < q" "s \<le> (q - 1) div 2" and j: "j < length xs" "0 < j" "(j - 1) div 2 = q" for j
  proof -
    from q have pq: "(q - 1) div 2 < q" by arith
    with ql qp have g: "(q - 1) div 2 < length xs" "(q - 1) div 2 \<noteq> q" "(q - 1) div 2 \<noteq> p"
      by auto
    from old [OF ql q(1,2)] qp have up: "key_le (xs ! ((q - 1) div 2)) (xs ! q)" by simp
    from j have jq: "j \<noteq> q" by arith
    show ?thesis
    proof (cases "j = p")
      case True
      with up g nth j jq show ?thesis by simp
    next
      case False
      from old [OF j(1,2) _ False] j p(3) have "key_le (xs ! q) (xs ! j)" by (simp add: q_def)
      with up have "key_le (xs ! ((q - 1) div 2)) (xs ! j)" by (rule key_le_trans)
      with False g nth j jq show ?thesis by simp
    qed
  qed
  show ?thesis
    unfolding heap_except_up_def q_def [symmetric] using a b by simp
qed

lemma bubble_heap:
  "bubble objs xs p = Inr (ys, leaf) \<Longrightarrow> heap_except_down s p xs \<Longrightarrow> below s p \<Longrightarrow>
   p < length xs \<Longrightarrow> heap_except_up s leaf ys \<and> below s leaf"
proof (induction "length xs - p" arbitrary: xs p rule: less_induct)
  case less
  from less.prems(1) show ?case
  proof (cases rule: bubble_cases)
    case leaf
    then have "\<And>j. j < length xs \<Longrightarrow> 0 < j \<Longrightarrow> (j - 1) div 2 \<noteq> p" by arith
    with less.prems(2) have "heap_except_up s p xs"
      unfolding heap_except_down_def heap_except_up_def by blast
    with leaf less.prems(3) show ?thesis by simp
  next
    case (down c)
    from smaller_child_range [OF down(2,1)] have c: "c = 2 * p + 1 \<or> c = 2 * p + 2" "c < length xs"
      by auto
    then have c': "0 < c" "(c - 1) div 2 = p" "p < c" by arith+
    have "heap_except_down s c (exchange p c xs)"
      using less.prems(2) below_ge [OF less.prems(3)] c(2) c'(1,2)
    proof (rule bubble_step)
      fix j assume "j < length xs" "0 < j" "(j - 1) div 2 = p"
      with smaller_child_le [OF down(2,1)] show "key_le (xs ! c) (xs ! j)" by simp
    qed
    moreover have "below s c" using less.prems(3) c(1) by (rule below_child)
    moreover have "length (exchange p c xs) - c < length xs - p" using c c' by simp
    ultimately show ?thesis using less.hyps [OF _ down(3)] c(2) by simp
  qed
qed

lemma siftdown_heap:
  "siftdown objs xs s p = Inr ys \<Longrightarrow> heap_except_up s p xs \<Longrightarrow> below s p \<Longrightarrow>
   p < length xs \<Longrightarrow> heap_from s ys"
proof (induction p arbitrary: xs rule: less_induct)
  case (less p)
  from less.prems(1) show ?case
  proof (cases rule: siftdown_cases)
    case stop
    with below_ge [OF less.prems(3)] have ps: "p = s" by simp
    have "\<And>j. 0 < j \<Longrightarrow> s \<le> (j - 1) div 2 \<Longrightarrow> j \<noteq> s" by arith
    with less.prems(2) ps stop show ?thesis
      unfolding heap_except_up_def heap_from_def by blast
  next
    case fits
    from tuple_lt_False [OF fits(2)] less.prems(2) fits(3) show ?thesis
      unfolding heap_except_up_def heap_from_def by metis
  next
    case up
    from up(1) below_parent [OF less.prems(3)] have q: "s \<le> (p - 1) div 2"
      "below s ((p - 1) div 2)" "0 < p" by auto
    then have qp: "(p - 1) div 2 < p" by arith
    from less.prems(2,4) q(3,1) tuple_lt_True [OF up(2)]
    have "heap_except_up s ((p - 1) div 2) (exchange p ((p - 1) div 2) xs)"
      by (rule siftdown_step)
    from less.IH [OF qp up(3) this q(2)] qp less.prems(4) show ?thesis by simp
  qed
qed

lemma siftup_heap:
  assumes "siftup objs xs s = Inr ys" "heap_from (Suc s) xs" "s < length xs"
  shows "heap_from s ys"
proof -
  from assms(1) obtain h leaf where b: "bubble objs xs s = Inr (h, leaf)"
    and d: "siftdown objs h s leaf = Inr ys"
    by (auto simp: siftup_def split: sum.splits)
  have "\<And>j. 0 < j \<Longrightarrow> s \<le> (j - 1) div 2 \<Longrightarrow> (j - 1) div 2 \<noteq> s \<Longrightarrow> Suc s \<le> (j - 1) div 2"
    by arith
  moreover have "\<not> (0 < s \<and> s \<le> (s - 1) div 2)" by arith
  ultimately have "heap_except_down s s xs"
    using assms(2) unfolding heap_except_down_def heap_from_def by blast
  from bubble_heap [OF b this below_self assms(3)] have u: "heap_except_up s leaf h" "below s leaf"
    by auto
  from bubble_mset [OF b assms(3)] have "leaf < length xs" "mset h = mset xs" by auto
  then have "leaf < length h" by (metis mset_eq_length)
  with siftdown_heap [OF d u] show ?thesis by simp
qed

lemma heappush_heap:
  assumes "heappush objs xs e = Inr ys" "is_heap xs"
  shows "is_heap ys"
proof -
  have "heap_except_up 0 (length xs) (xs @ [e])"
    unfolding heap_except_up_def
  proof (intro conjI allI impI)
    fix j assume j: "j < length (xs @ [e])"
      "0 < j \<and> 0 \<le> (j - 1) div 2 \<and> j \<noteq> length xs"
    then have "j < length xs" "(j - 1) div 2 < length xs" by auto
    with assms(2) j show "key_le ((xs @ [e]) ! ((j - 1) div 2)) ((xs @ [e]) ! j)"
      by (simp add: is_heap_def nth_append)
  next
    fix j assume "j < length (xs @ [e])" "0 < j \<and> (j - 1) div 2 = length xs"
    then have False by auto
    then show "key_le ((xs @ [e]) ! ((length xs - 1) div 2)) ((xs @ [e]) ! j)" ..
  qed
  with assms(1) have "heap_from 0 ys"
    unfolding heappush_def by (rule siftdown_heap) (simp_all add: below_0)
  then show ?thesis by (simp add: is_heap_heap_from)
qed

lemma heappop_heap:
  assumes "heappop objs xs = Inr (x, ys)" "is_heap xs"
  shows "is_heap ys"
proof -
  from assms(1) have ne: "xs \<noteq> []" by (auto simp: heappop_def)
  show ?thesis
  proof (cases "butlast xs = []")
    case True
    with assms(1) ne have "ys = []" by (simp add: heappop_def Let_def)
    then show ?thesis by (simp add: is_heap_def)
  next
    case False
    let ?h = "(butlast xs)[0 := last xs]"
    from False assms(1) ne have s: "siftup objs ?h 0 = Inr ys"
      by (auto simp: heappop_def Let_def split: sum.splits)
    have "heap_from (Suc 0) ?h"
      unfolding heap_from_def
    proof (intro allI impI)
      fix j assume j: "j < length ?h" "0 < j \<and> Suc 0 \<le> (j - 1) div 2"
      then have "j < length xs" "(j - 1) div 2 < length (butlast xs)" "(j - 1) div 2 \<noteq> 0" "j \<noteq> 0"
        by auto
      with assms(2) j show "key_le (?h ! ((j - 1) div 2)) (?h ! j)"
        by (simp add: is_heap_def nth_butlast)
    qed
    moreover from False have "0 < length (butlast xs)" by (metis length_greater_0_conv)
    then have "0 < length ?h" by simp
    ultimately have "heap_from 0 ys" using s by (blast intro: siftup_heap)
    then show ?thesis by (simp add: is_heap_heap_from)
  qed
qed

lemma heapify_from_heap:
  "heapify_from objs xs n = Inr ys \<Longrightarrow> heap_from n xs \<Longrightarrow> n \<le> length xs \<Longrightarrow> heap_from 0 ys"
proof (induction n arbitrary: xs)
  case 0
  then show ?case by simp
next
  case (Suc n)
  from Suc.prems(1) obtain h where h: "siftup objs xs n = Inr h"
    and r: "heapify_from objs h n = Inr ys"
    by (auto split: sum.splits)
  from Suc.prems(3) have n: "n < length xs" by simp
  from siftup_heap [OF h Suc.prems(2) n] have "heap_from n h" .
  moreover from siftup_mset [OF h n] have "length h = length xs" by (metis mset_eq_length)
  ultimately show ?case using Suc.IH [OF r] n by simp
qed

lemma heapify_heap:
  assumes "heapify objs xs = Inr ys"
  shows "is_heap ys"
proof -
  have "heap_from (length xs div 2) xs"
    unfolding heap_from_def by (intro allI impI) arith
  with assms have "heap_from 0 ys"
    unfolding heapify_def by (rule heapify_from_heap) simp
  then show ?thesis by (simp add: is_heap_heap_from)
qed

section \<open>The order book (order\_book.py, class OrderBook)\<close>

text \<open>
  \<open>_process_market_order\<close> and \<open>_process_limit_order\<close> each hold two copies of one
  while loop, for an incoming BUY against \<open>sell_orders\<close> and for an incoming SELL against
  \<open>buy_orders\<close>. The four copies differ in the heap they read, in the price test of the
  loop condition and in the price and the order ids written to the trade; the three
  functions below are those differences.
\<close>

definition opposite :: "OrderSide \<Rightarrow> OrderBook \<Rightarrow> entry list" where
  "opposite s b = (if s = BUY then sell_orders b else buy_orders b)"

definition set_opposite :: "OrderSide \<Rightarrow> entry list \<Rightarrow> OrderBook \<Rightarrow> OrderBook" where
  "set_opposite s h b = (if s = BUY then b\<lparr>sell_orders := h\<rparr> else b\<lparr>buy_orders := h\<rparr>)"

text \<open>
  The price test of the loop condition, on the key \<open>k\<close> of the top entry: none for a
  market order, \<open>sell_orders[0][0] <= order.price\<close> for a limit BUY and
  \<open>-buy_orders[0][0] >= order.price\<close> for a limit SELL. Comparing a number with a
  \<open>None\<close> price raises TypeError.
\<close>

definition price_test :: "bool \<Rightarrow> Order \<Rightarrow> rat \<Rightarrow> error + bool" where
  "price_test limit ord k =
     (if \<not> limit then Inr True
      else case price ord of
             None \<Rightarrow> Inl TypeError
           | Some p \<Rightarrow> Inr (if side ord = BUY then k \<le> p else - k \<ge> p))"

text \<open>
  The trade of one fill. Only the SELL loop of \<open>_process_limit_order\<close> converts the
  negated key of \<open>buy_orders\<close> back (\<open>best_buy_price = -best_buy_price\<close>); the SELL loop
  of \<open>_process_market_order\<close> writes the key as it is.
\<close>

definition make_trade :: "bool \<Rightarrow> Order \<Rightarrow> rat \<Rightarrow> Order \<Rightarrow> int \<Rightarrow> Trade" where
  "make_trade limit ord k best q =
     \<lparr>buy_order_id = (if side ord = BUY then order_id ord else order_id best),
      sell_order_id = (if side ord = BUY then order_id best else order_id ord),
      trade_symbol = symbol ord,
      trade_quantity = q,
      trade_price = (if side ord = SELL \<and> limit then - k else k)\<rparr>"

lemma opposite_set_opposite [simp]: "opposite s (set_opposite s h b) = h"
  by (simp add: opposite_def set_opposite_def)

lemma opposite_orders_by_id_update [simp]: "opposite s (b\<lparr>orders_by_id := m\<rparr>) = opposite s b"
  by (simp add: opposite_def)

text \<open>
  The while loop. \<open>ord\<close> is the incoming order (its id, side, symbol and price are never
  assigned), \<open>remaining\<close> is \<open>remaining_quantity\<close> and \<open>ts\<close> is the local list \<open>trades\<close>.
  A full match pops the top entry and deletes its id from \<open>orders_by_id\<close> (KeyError when
  the id is not a key); a partial match lowers the quantity of the resting object and
  sets \<open>remaining_quantity = 0\<close>, after which the loop condition is false.
\<close>

function match_loop ::
  "bool \<Rightarrow> Order \<Rightarrow> OrderBook \<Rightarrow> int \<Rightarrow> Trade list \<Rightarrow> error + (OrderBook \<times> int \<times> Trade list)" where
  "match_loop limit ord b remaining ts =
     (if remaining > 0 \<and> opposite (side ord) b \<noteq> [] then
        (case hd (opposite (side ord) b) of (best_price, best_time, best) \<Rightarrow>
           case price_test limit ord best_price of
             Inl e \<Rightarrow> Inl e
           | Inr ok \<Rightarrow>
               if \<not> ok then Inr (b, remaining, ts)
               else
                 let best_order = objects b ! best in
                 if quantity best_order \<le> remaining then
                   (case heappop (objects b) (opposite (side ord) b) of
                      Inl e \<Rightarrow> Inl e
                    | Inr (popped, heap') \<Rightarrow>
                        if order_id best_order \<in> dom (orders_by_id b) then
                          match_loop limit ord
                            (set_opposite (side ord) heap'
                               (b\<lparr>orders_by_id := (orders_by_id b)(order_id best_order := None)\<rparr>))
                            (remaining - quantity best_order)
                            (ts @ [make_trade limit ord best_price best_order (quantity best_order)])
                        else Inl KeyError)
                 else
                   Inr (b\<lparr>objects := (objects b)
                           [best := best_order\<lparr>quantity := quantity best_order - remaining\<rparr>]\<rparr>,
                        0,
                        ts @ [make_trade limit ord best_price best_order remaining]))
      else Inr (b, remaining, ts))"
  by pat_completeness auto
termination
  by (relation "measure (\<lambda>(limit, ord, b, remaining, ts). length (opposite (side ord) b))")
     (auto dest: heappop_length)

declare match_loop.simps [simp del]

text \<open>
  The statistics loop that ends both processing functions:
  \<open>for trade in trades: self.trades.append(trade); self.total_volume += trade.quantity;
  self.total_trades += 1\<close>.
\<close>

definition record_trades :: "OrderBook \<Rightarrow> Trade list \<Rightarrow> OrderBook" where
  "record_trades b ts =
     foldl (\<lambda>b t. b\<lparr>trades := trades b @ [t],
                     total_volume := total_volume b + trade_quantity t,
                     total_trades := total_trades b + 1\<rparr>) b ts"

text \<open>
  \<open>_process_market_order(order)\<close>; the order is the object at address \<open>a\<close>. What is
  left of \<open>remaining_quantity\<close> after the loop is dropped.
\<close>

definition process_market_order :: "OrderBook \<Rightarrow> nat \<Rightarrow> error + (Trade list \<times> OrderBook)" where
  "process_market_order b a =
     (let ord = objects b ! a in
      case match_loop False ord b (quantity ord) [] of
        Inl e \<Rightarrow> Inl e
      | Inr (b', remaining, ts) \<Rightarrow> Inr (ts, record_trades b' ts))"

text \<open>
  The end of each branch of \<open>_process_limit_order\<close>: \<open>order.quantity = remaining_quantity\<close>
  and the push on the order's own side, with the negated price as key on the buy side.
  Negating a \<open>None\<close> price raises TypeError.
\<close>

definition rest_order :: "OrderBook \<Rightarrow> nat \<Rightarrow> int \<Rightarrow> error + OrderBook" where
  "rest_order b a remaining =
     (let objs = (objects b)[a := (objects b ! a)\<lparr>quantity := remaining\<rparr>];
          ord = objs ! a
      in case price ord of
           None \<Rightarrow> Inl TypeError
         | Some p \<Rightarrow>
             if side ord = BUY then
               (case heappush objs (buy_orders b) (- p, timestamp ord, a) of
                  Inl e \<Rightarrow> Inl e
                | Inr h \<Rightarrow> Inr (b\<lparr>objects := objs, buy_orders := h\<rparr>))
             else
               (case heappush objs (sell_orders b) (p, timestamp ord, a) of
                  Inl e \<Rightarrow> Inl e
                | Inr h \<Rightarrow> Inr (b\<lparr>objects := objs, sell_orders := h\<rparr>)))"

definition process_limit_order :: "OrderBook \<Rightarrow> nat \<Rightarrow> error + (Trade list \<times> OrderBook)" where
  "process_limit_order b a =
     (let ord = objects b ! a in
      case match_loop True ord b (quantity ord) [] of
        Inl e \<Rightarrow> Inl e
      | Inr (b1, remaining, ts) \<Rightarrow>
          (case (if remaining > 0 then rest_order b1 a remaining else Inr b1) of
             Inl e \<Rightarrow> Inl e
           | Inr b2 \<Rightarrow> Inr (ts, record_trades b2 ts)))"

text \<open>
  The search loop of \<open>_cancel_order\<close>: the index of the first entry whose order has the
  id, then \<open>pop(i)\<close>, \<open>heapify\<close> and \<open>break\<close>. A heap without such an entry is left as it is.
\<close>

fun find_entry :: "Order list \<Rightarrow> string \<Rightarrow> entry list \<Rightarrow> nat option" where
  "find_entry objs oid [] = None"
| "find_entry objs oid ((p, t, a) # es) =
     (if order_id (objs ! a) = oid then Some 0 else map_option Suc (find_entry objs oid es))"

definition remove_entry :: "Order list \<Rightarrow> string \<Rightarrow> entry list \<Rightarrow> error + entry list" where
  "remove_entry objs oid heap =
     (case find_entry objs oid heap of
        None \<Rightarrow> Inr heap
      | Some i \<Rightarrow> heapify objs (take i heap @ drop (Suc i) heap))"

definition cancel_order :: "OrderBook \<Rightarrow> Order \<Rightarrow> error + (Trade list \<times> OrderBook)" where
  "cancel_order b cancel =
     (case orders_by_id b (order_id cancel) of
        None \<Rightarrow> Inr ([], b)
      | Some a \<Rightarrow>
          let order_to_cancel = objects b ! a in
          case (if side order_to_cancel = BUY
                then (case remove_entry (objects b) (order_id cancel) (buy_orders b) of
                        Inl e \<Rightarrow> Inl e
                      | Inr h \<Rightarrow> Inr (b\<lparr>buy_orders := h\<rparr>))
                else (case remove_entry (objects b) (order_id cancel) (sell_orders b) of
                        Inl e \<Rightarrow> Inl e
                      | Inr h \<Rightarrow> Inr (b\<lparr>sell_orders := h\<rparr>))) of
            Inl e \<Rightarrow> Inl e
          | Inr b' \<Rightarrow>
              if order_id order_to_cancel \<in> dom (orders_by_id b')
              then Inr ([], b'\<lparr>orders_by_id := (orders_by_id b')(order_id order_to_cancel := None)\<rparr>)
              else Inl KeyError)"

text \<open>
  \<open>add_order(order)\<close>. A CANCEL request goes to \<open>_cancel_order\<close>. Any other order is a
  new object (at the next free address), is stored in \<open>orders_by_id\<close> under its id and
  appended to the submitter's list in \<open>client_orders\<close>, then processed.
\<close>

definition store_order :: "OrderBook \<Rightarrow> Order \<Rightarrow> OrderBook" where
  "store_order b ord =
     b\<lparr>objects := objects b @ [ord],
       orders_by_id := (orders_by_id b)(order_id ord \<mapsto> length (objects b)),
       client_orders := (client_orders b)
         (client_id ord := client_orders b (client_id ord) @ [order_id ord])\<rparr>"

definition add_order :: "OrderBook \<Rightarrow> Order \<Rightarrow> error + (Trade list \<times> OrderBook)" where
  "add_order b ord =
     (if order_type ord = CANCEL then cancel_order b ord
      else
        let a = length (objects b); b' = store_order b ord
        in if order_type ord = MARKET then process_market_order b' a
           else process_limit_order b' a)"

definition get_best_bid :: "OrderBook \<Rightarrow> (rat \<times> int) option" where
  "get_best_bid b =
     (case buy_orders b of
        [] \<Rightarrow> None
      | (p, t, a) # _ \<Rightarrow> Some (- p, quantity (objects b ! a)))"

definition get_best_ask :: "OrderBook \<Rightarrow> (rat \<times> int) option" where
  "get_best_ask b =
     (case sell_orders b of
        [] \<Rightarrow> None
      | (p, t, a) # _ \<Rightarrow> Some (p, quantity (objects b ! a)))"

text \<open>
  A sequence of requests applied to a book, one \<open>add_order\<close> call after the other; an
  exception ends the sequence.
\<close>

fun add_orders :: "OrderBook \<Rightarrow> Order list \<Rightarrow> error + OrderBook" where
  "add_orders b [] = Inr b"
| "add_orders b (ord # ords) =
     (case add_order b ord of
        Inl e \<Rightarrow> Inl e
      | Inr (ts, b') \<Rightarrow> add_orders b' ords)"

subsection \<open>Case and invariant rules for the matching loop\<close>

lemma match_loop_cases:
  assumes "match_loop limit ord b r ts = Inr res"
  obtains (idle) "\<not> (r > 0 \<and> opposite (side ord) b \<noteq> [])" "res = (b, r, ts)"
  | (stop) k t a where "r > 0" "opposite (side ord) b \<noteq> []"
      "hd (opposite (side ord) b) = (k, t, a)" "price_test limit ord k = Inr False"
      "res = (b, r, ts)"
  | (partial) k t a where "r > 0" "opposite (side ord) b \<noteq> []"
      "hd (opposite (side ord) b) = (k, t, a)" "price_test limit ord k = Inr True"
      "\<not> quantity (objects b ! a) \<le> r"
      "res = (b\<lparr>objects := (objects b)
                 [a := (objects b ! a)\<lparr>quantity := quantity (objects b ! a) - r\<rparr>]\<rparr>,
              0, ts @ [make_trade limit ord k (objects b ! a) r])"
  | (full) k t a heap' where "r > 0" "opposite (side ord) b \<noteq> []"
      "hd (opposite (side ord) b) = (k, t, a)" "price_test limit ord k = Inr True"
      "quantity (objects b ! a) \<le> r"
      "heappop (objects b) (opposite (side ord) b) = Inr ((k, t, a), heap')"
      "order_id (objects b ! a) \<in> dom (orders_by_id b)"
      "match_loop limit ord
         (set_opposite (side ord) heap'
            (b\<lparr>orders_by_id := (orders_by_id b)(order_id (objects b ! a) := None)\<rparr>))
         (r - quantity (objects b ! a))
         (ts @ [make_trade limit ord k (objects b ! a) (quantity (objects b ! a))]) = Inr res"
proof (cases "r > 0 \<and> opposite (side ord) b \<noteq> []")
  case False
  with assms have "res = (b, r, ts)" by (simp add: match_loop.simps [of limit ord b])
  with False show ?thesis by (rule idle)
next
  case True
  obtain k t a where hd: "hd (opposite (side ord) b) = (k, t, a)" by (cases "hd (opposite (side ord) b)")
  from True hd assms obtain ok where ok: "price_test limit ord k = Inr ok"
    by (auto simp: match_loop.simps [of limit ord b] split: sum.splits)
  show ?thesis
  proof (cases ok)
    case False
    with True hd ok assms have "res = (b, r, ts)" by (simp add: match_loop.simps [of limit ord b])
    with True hd ok False show ?thesis by (auto intro: stop)
  next
    case okT: True
    show ?thesis
    proof (cases "quantity (objects b ! a) \<le> r")
      case False
      with True hd ok okT assms have
        "res = (b\<lparr>objects := (objects b)
                 [a := (objects b ! a)\<lparr>quantity := quantity (objects b ! a) - r\<rparr>]\<rparr>,
              0, ts @ [make_trade limit ord k (objects b ! a) r])"
        by (simp add: match_loop.simps [of limit ord b] Let_def)
      with True hd ok okT False show ?thesis by (auto intro: partial)
    next
      case q: True
      with True hd ok okT assms obtain x heap' where
        pop: "heappop (objects b) (opposite (side ord) b) = Inr (x, heap')"
        by (auto simp: match_loop.simps [of limit ord b] Let_def split: sum.splits)
      from heappop_mset [OF pop] hd have x: "x = (k, t, a)" by simp
      from True hd ok okT q pop assms have
        dom: "order_id (objects b ! a) \<in> dom (orders_by_id b)"
        by (auto simp: match_loop.simps [of limit ord b] Let_def split: if_splits)
      with True hd ok okT q pop assms have
        "match_loop limit ord
         (set_opposite (side ord) heap'
            (b\<lparr>orders_by_id := (orders_by_id b)(order_id (objects b ! a) := None)\<rparr>))
         (r - quantity (objects b ! a))
         (ts @ [make_trade limit ord k (objects b ! a) (quantity (objects b ! a))]) = Inr res"
        by (auto simp: match_loop.simps [of limit ord b] Let_def)
      with True hd ok okT q pop x dom show ?thesis by (auto intro: full)
    qed
  qed
qed

lemma match_loop_invariant:
  assumes run: "match_loop limit ord b r ts = Inr (b', r', ts')"
    and init: "P b r ts"
    and full: "\<And>b r ts k t a heap'.
      P b r ts \<Longrightarrow> r > 0 \<Longrightarrow> opposite (side ord) b \<noteq> [] \<Longrightarrow>
      hd (opposite (side ord) b) = (k, t, a) \<Longrightarrow> price_test limit ord k = Inr True \<Longrightarrow>
      quantity (objects b ! a) \<le> r \<Longrightarrow>
      heappop (objects b) (opposite (side ord) b) = Inr ((k, t, a), heap') \<Longrightarrow>
      order_id (objects b ! a) \<in> dom (orders_by_id b) \<Longrightarrow>
      P (set_opposite (side ord) heap'
           (b\<lparr>orders_by_id := (orders_by_id b)(order_id (objects b ! a) := None)\<rparr>))
        (r - quantity (objects b ! a))
        (ts @ [make_trade limit ord k (objects b ! a) (quantity (objects b ! a))])"
    and partial: "\<And>b r ts k t a.
      P b r ts \<Longrightarrow> r > 0 \<Longrightarrow> opposite (side ord) b \<noteq> [] \<Longrightarrow>
      hd (opposite (side ord) b) = (k, t, a) \<Longrightarrow> price_test limit ord k = Inr True \<Longrightarrow>
      \<not> quantity (objects b ! a) \<le> r \<Longrightarrow>
      P (b\<lparr>objects := (objects b)
             [a := (objects b ! a)\<lparr>quantity := quantity (objects b ! a) - r\<rparr>]\<rparr>)
        0 (ts @ [make_trade limit ord k (objects b ! a) r])"
  shows "P b' r' ts'"
  using run init
proof (induction "length (opposite (side ord) b)" arbitrary: b r ts rule: less_induct)
  case less
  from less.prems(1) show ?case
  proof (cases rule: match_loop_cases)
    case idle
    with less.prems(2) show ?thesis by simp
  next
    case (stop k t a)
    with less.prems(2) show ?thesis by simp
  next
    case (partial k t a)
    from partial(6) assms(4) [OF less.prems(2) partial(1-5)] show ?thesis by simp
  next
    case (full k t a heap')
    let ?b = "set_opposite (side ord) heap'
            (b\<lparr>orders_by_id := (orders_by_id b)(order_id (objects b ! a) := None)\<rparr>)"
    from heappop_length [OF full(6)] have "length (opposite (side ord) ?b) < length (opposite (side ord) b)"
      by simp
    from less.hyps [OF this full(8)] assms(3) [OF less.prems(2) full(1-7)] show ?thesis .
  qed
qed

lemma match_loop_exit:
  assumes "match_loop limit ord b r ts = Inr (b', r', ts')" "0 < r'"
  shows "opposite (side ord) b' = [] \<or>
         price_test limit ord (fst (hd (opposite (side ord) b'))) = Inr False"
  using assms(1)
proof (induction "length (opposite (side ord) b)" arbitrary: b r ts rule: less_induct)
  case less
  from less.prems(1) show ?case
  proof (cases rule: match_loop_cases)
    case idle
    with assms(2) show ?thesis by auto
  next
    case (stop k t a)
    then show ?thesis by auto
  next
    case (partial k t a)
    with assms(2) show ?thesis by simp
  next
    case (full k t a heap')
    let ?b = "set_opposite (side ord) heap'
            (b\<lparr>orders_by_id := (orders_by_id b)(order_id (objects b ! a) := None)\<rparr>)"
    from heappop_length [OF full(6)] have "length (opposite (side ord) ?b) < length (opposite (side ord) b)"
      by simp
    from less.hyps [OF this full(8)] show ?thesis .
  qed
qed

subsection \<open>The invariant of the book\<close>

definition addr :: "entry \<Rightarrow> nat" where
  "addr e = snd (snd e)"

text \<open>
  An entry of the heap of side \<open>s\<close> refers to an allocated order of that side, carries
  its timestamp and its price (negated on the buy side), and the order has quantity left.
\<close>

definition entry_ok :: "Order list \<Rightarrow> OrderSide \<Rightarrow> entry \<Rightarrow> bool" where
  "entry_ok objs s e \<longleftrightarrow>
     addr e < length objs \<and> side (objs ! addr e) = s \<and>
     timestamp (objs ! addr e) = fst (snd e) \<and>
     price (objs ! addr e) = Some (if s = BUY then - fst e else fst e) \<and>
     0 < quantity (objs ! addr e)"

definition index_ok :: "OrderBook \<Rightarrow> bool" where
  "index_ok b \<longleftrightarrow>
     (\<forall>k a. orders_by_id b k = Some a \<longrightarrow> a < length (objects b) \<and> order_id (objects b ! a) = k)"

definition uncrossed :: "OrderBook \<Rightarrow> bool" where
  "uncrossed b \<longleftrightarrow> (\<forall>e \<in> set (buy_orders b). \<forall>f \<in> set (sell_orders b). - fst e < fst f)"

definition book_inv :: "OrderBook \<Rightarrow> bool" where
  "book_inv b \<longleftrightarrow>
     is_heap (buy_orders b) \<and> is_heap (sell_orders b) \<and>
     (\<forall>e \<in> set (buy_orders b). entry_ok (objects b) BUY e) \<and>
     (\<forall>e \<in> set (sell_orders b). entry_ok (objects b) SELL e) \<and>
     distinct (map addr (buy_orders b @ sell_orders b)) \<and>
     index_ok b \<and> uncrossed b"

lemma nth_quantity_update:
  "objs[a := (objs ! a)\<lparr>quantity := q\<rparr>] ! i =
     (if i = a then (objs ! i)\<lparr>quantity := q\<rparr> else objs ! i) \<or> (i = a \<and> length objs \<le> a)"
  by (cases "i = a"; cases "a < length objs") (simp_all add: list_update_beyond)

lemma order_id_quantity_update [simp]:
  "order_id (objs[a := (objs ! a)\<lparr>quantity := q\<rparr>] ! i) = order_id (objs ! i)"
  by (cases "i = a"; cases "a < length objs") (simp_all add: list_update_beyond)

lemma side_quantity_update [simp]:
  "side (objs[a := (objs ! a)\<lparr>quantity := q\<rparr>] ! i) = side (objs ! i)"
  by (cases "i = a"; cases "a < length objs") (simp_all add: list_update_beyond)

lemma price_quantity_update [simp]:
  "price (objs[a := (objs ! a)\<lparr>quantity := q\<rparr>] ! i) = price (objs ! i)"
  by (cases "i = a"; cases "a < length objs") (simp_all add: list_update_beyond)

lemma timestamp_quantity_update [simp]:
  "timestamp (objs[a := (objs ! a)\<lparr>quantity := q\<rparr>] ! i) = timestamp (objs ! i)"
  by (cases "i = a"; cases "a < length objs") (simp_all add: list_update_beyond)

lemma book_inv_new_book: "book_inv (new_book s)"
  by (simp add: book_inv_def new_book_def is_heap_def index_ok_def uncrossed_def)

lemma heappop_subset: "heappop objs heap = Inr (x, heap') \<Longrightarrow> mset heap' \<subseteq># mset heap"
  by (drule heappop_mset) simp

lemma distinct_map_subset:
  assumes "distinct (map f xs)" "mset ys \<subseteq># mset xs"
  shows "distinct (map f ys)"
proof -
  from assms(2) obtain C where "mset xs = mset ys + C"
    by (auto simp: mset_subset_eq_exists_conv)
  moreover obtain zs where "mset zs = C" using ex_mset by blast
  ultimately have "mset xs = mset (ys @ zs)" by simp
  then have "mset (map f xs) = mset (map f (ys @ zs))" by (metis mset_map)
  with assms(1) have "distinct (map f (ys @ zs))" by (metis mset_eq_imp_distinct_iff)
  then show ?thesis by simp
qed

lemma book_inv_cong:
  "buy_orders b' = buy_orders b \<Longrightarrow> sell_orders b' = sell_orders b \<Longrightarrow>
   objects b' = objects b \<Longrightarrow> orders_by_id b' = orders_by_id b \<Longrightarrow> book_inv b' = book_inv b"
  by (simp add: book_inv_def index_ok_def uncrossed_def)

text \<open>Removing entries and index keys keeps the invariant, if the heaps stay heaps.\<close>

lemma book_inv_shrink:
  assumes inv: "book_inv b" and h: "is_heap bs" "is_heap ss"
    and sub: "mset bs \<subseteq># mset (buy_orders b)" "mset ss \<subseteq># mset (sell_orders b)"
    and idx: "\<And>k a. m k = Some a \<Longrightarrow> orders_by_id b k = Some a"
  shows "book_inv (b\<lparr>buy_orders := bs, sell_orders := ss, orders_by_id := m\<rparr>)"
proof -
  from sub have ss: "set bs \<subseteq> set (buy_orders b)" "set ss \<subseteq> set (sell_orders b)"
    by (metis set_mset_mono set_mset_mset)+
  from inv have "index_ok b" by (simp add: book_inv_def)
  with idx have i: "index_ok (b\<lparr>buy_orders := bs, sell_orders := ss, orders_by_id := m\<rparr>)"
    unfolding index_ok_def by fastforce
  from sub have "mset (bs @ ss) \<subseteq># mset (buy_orders b @ sell_orders b)"
    by (simp add: subset_mset.add_mono)
  with inv have d: "distinct (map addr (bs @ ss))"
    unfolding book_inv_def by (blast intro: distinct_map_subset)
  have u: "\<forall>e\<in>set bs. \<forall>f\<in>set ss. - fst e < fst f"
    using inv ss unfolding book_inv_def uncrossed_def by blast
  have e: "\<forall>e\<in>set bs. entry_ok (objects b) BUY e" "\<forall>e\<in>set ss. entry_ok (objects b) SELL e"
    using inv ss unfolding book_inv_def by blast+
  from h i d u e show ?thesis
    by (simp add: book_inv_def uncrossed_def)
qed

lemma book_inv_pop:
  assumes inv: "book_inv b" and pop: "heappop (objects b) (opposite s b) = Inr (x, heap')"
    and sub: "\<And>k a. m k = Some a \<Longrightarrow> orders_by_id b k = Some a"
  shows "book_inv (set_opposite s heap' (b\<lparr>orders_by_id := m\<rparr>))"
proof (cases "s = BUY")
  case True
  with pop inv have "is_heap heap'" "mset heap' \<subseteq># mset (sell_orders b)"
    by (auto simp: book_inv_def opposite_def intro: heappop_heap heappop_subset)
  with inv sub have
    "book_inv (b\<lparr>buy_orders := buy_orders b, sell_orders := heap', orders_by_id := m\<rparr>)"
    by (intro book_inv_shrink) (simp_all add: book_inv_def)
  with True show ?thesis by (simp add: set_opposite_def book_inv_cong [where b' = "b\<lparr>orders_by_id := m, sell_orders := heap'\<rparr>" and b = "b\<lparr>sell_orders := heap', orders_by_id := m\<rparr>"])
next
  case False
  with pop inv have "is_heap heap'" "mset heap' \<subseteq># mset (buy_orders b)"
    by (auto simp: book_inv_def opposite_def intro: heappop_heap heappop_subset)
  with inv sub have
    "book_inv (b\<lparr>buy_orders := heap', sell_orders := sell_orders b, orders_by_id := m\<rparr>)"
    by (intro book_inv_shrink) (simp_all add: book_inv_def)
  with False show ?thesis by (simp add: set_opposite_def book_inv_cong [where b' = "b\<lparr>orders_by_id := m, buy_orders := heap'\<rparr>" and b = "b\<lparr>buy_orders := heap', orders_by_id := m\<rparr>"])
qed

lemma entry_ok_update:
  assumes "entry_ok objs s e" "a = addr e \<longrightarrow> 0 < q"
  shows "entry_ok (objs[a := (objs ! a)\<lparr>quantity := q\<rparr>]) s e"
  using assms by (cases "a = addr e") (auto simp: entry_ok_def)

lemma book_inv_fill:
  assumes inv: "book_inv b" and q: "0 < q"
  shows "book_inv (b\<lparr>objects := (objects b)[a := (objects b ! a)\<lparr>quantity := q\<rparr>]\<rparr>)"
proof -
  have "index_ok (b\<lparr>objects := (objects b)[a := (objects b ! a)\<lparr>quantity := q\<rparr>]\<rparr>)"
    using inv unfolding book_inv_def index_ok_def by simp
  with inv q show ?thesis
    by (simp add: book_inv_def uncrossed_def entry_ok_update)
qed

subsection \<open>What the matching loop keeps\<close>

lemma match_loop_book_inv:
  assumes "match_loop limit ord b r ts = Inr (b', r', ts')" "book_inv b"
  shows "book_inv b'"
  using assms(1)
proof (rule match_loop_invariant [where P = "\<lambda>b r ts. book_inv b"])
  show "book_inv b" by fact
next
  fix b :: OrderBook and r k t a heap'
  assume "book_inv b" "heappop (objects b) (opposite (side ord) b) = Inr ((k, t, a), heap')"
  then show "book_inv (set_opposite (side ord) heap'
           (b\<lparr>orders_by_id := (orders_by_id b)(order_id (objects b ! a) := None)\<rparr>))"
    by (rule book_inv_pop) (simp split: if_splits)
next
  fix b :: OrderBook and r :: int and a
  assume "book_inv b" "\<not> quantity (objects b ! a) \<le> r"
  then show "book_inv (b\<lparr>objects := (objects b)
             [a := (objects b ! a)\<lparr>quantity := quantity (objects b ! a) - r\<rparr>]\<rparr>)"
    by (intro book_inv_fill) simp_all
qed

text \<open>The fields and object attributes the loop never assigns.\<close>

definition same_frame :: "OrderBook \<Rightarrow> OrderBook \<Rightarrow> bool" where
  "same_frame b b' \<longleftrightarrow>
     trades b' = trades b \<and> total_volume b' = total_volume b \<and>
     total_trades b' = total_trades b \<and> client_orders b' = client_orders b \<and>
     book_symbol b' = book_symbol b \<and> length (objects b') = length (objects b) \<and>
     (\<forall>i. order_id (objects b' ! i) = order_id (objects b ! i) \<and>
          side (objects b' ! i) = side (objects b ! i) \<and>
          price (objects b' ! i) = price (objects b ! i) \<and>
          timestamp (objects b' ! i) = timestamp (objects b ! i))"

lemma same_frame_refl [simp]: "same_frame b b"
  by (simp add: same_frame_def)

lemma same_frame_trans: "same_frame b b' \<Longrightarrow> same_frame b' b'' \<Longrightarrow> same_frame b b''"
  by (simp add: same_frame_def)

lemma match_loop_frame:
  assumes "match_loop limit ord b r ts = Inr (b', r', ts')"
  shows "same_frame b b' \<and>
         (side ord = BUY \<longrightarrow> buy_orders b' = buy_orders b) \<and>
         (side ord \<noteq> BUY \<longrightarrow> sell_orders b' = sell_orders b) \<and>
         mset (opposite (side ord) b') \<subseteq># mset (opposite (side ord) b) \<and>
         orders_by_id b' \<subseteq>\<^sub>m orders_by_id b \<and>
         (\<forall>i. i \<notin> addr ` set (opposite (side ord) b) \<longrightarrow> objects b' ! i = objects b ! i)"
  using assms
proof (rule match_loop_invariant [where P = "\<lambda>c r ts. same_frame b c \<and>
         (side ord = BUY \<longrightarrow> buy_orders c = buy_orders b) \<and>
         (side ord \<noteq> BUY \<longrightarrow> sell_orders c = sell_orders b) \<and>
         mset (opposite (side ord) c) \<subseteq># mset (opposite (side ord) b) \<and>
         orders_by_id c \<subseteq>\<^sub>m orders_by_id b \<and>
         (\<forall>i. i \<notin> addr ` set (opposite (side ord) b) \<longrightarrow> objects c ! i = objects b ! i)"])
  show "same_frame b b \<and>
         (side ord = BUY \<longrightarrow> buy_orders b = buy_orders b) \<and>
         (side ord \<noteq> BUY \<longrightarrow> sell_orders b = sell_orders b) \<and>
         mset (opposite (side ord) b) \<subseteq># mset (opposite (side ord) b) \<and>
         orders_by_id b \<subseteq>\<^sub>m orders_by_id b \<and>
         (\<forall>i. i \<notin> addr ` set (opposite (side ord) b) \<longrightarrow> objects b ! i = objects b ! i)"
    by simp
next
  fix c :: OrderBook and r :: int and ts :: "Trade list" and k t a heap'
  let ?c = "set_opposite (side ord) heap'
           (c\<lparr>orders_by_id := (orders_by_id c)(order_id (objects c ! a) := None)\<rparr>)"
  assume P: "same_frame b c \<and>
         (side ord = BUY \<longrightarrow> buy_orders c = buy_orders b) \<and>
         (side ord \<noteq> BUY \<longrightarrow> sell_orders c = sell_orders b) \<and>
         mset (opposite (side ord) c) \<subseteq># mset (opposite (side ord) b) \<and>
         orders_by_id c \<subseteq>\<^sub>m orders_by_id b \<and>
         (\<forall>i. i \<notin> addr ` set (opposite (side ord) b) \<longrightarrow> objects c ! i = objects b ! i)"
    and pop: "heappop (objects c) (opposite (side ord) c) = Inr ((k, t, a), heap')"
  from heappop_subset [OF pop] P
  have m: "mset (opposite (side ord) ?c) \<subseteq># mset (opposite (side ord) b)"
    by (auto intro: subset_mset.order_trans)
  have "orders_by_id ?c \<subseteq>\<^sub>m orders_by_id c"
    by (auto simp: set_opposite_def map_le_def)
  with P have i: "orders_by_id ?c \<subseteq>\<^sub>m orders_by_id b" by (blast intro: map_le_trans)
  have f: "same_frame c ?c" "objects ?c = objects c"
    "side ord = BUY \<longrightarrow> buy_orders ?c = buy_orders c"
    "side ord \<noteq> BUY \<longrightarrow> sell_orders ?c = sell_orders c"
    by (simp_all add: same_frame_def set_opposite_def)
  with P have "same_frame b ?c" by (blast intro: same_frame_trans)
  with P m i f(2-4) show "same_frame b ?c \<and>
         (side ord = BUY \<longrightarrow> buy_orders ?c = buy_orders b) \<and>
         (side ord \<noteq> BUY \<longrightarrow> sell_orders ?c = sell_orders b) \<and>
         mset (opposite (side ord) ?c) \<subseteq># mset (opposite (side ord) b) \<and>
         orders_by_id ?c \<subseteq>\<^sub>m orders_by_id b \<and>
         (\<forall>i. i \<notin> addr ` set (opposite (side ord) b) \<longrightarrow> objects ?c ! i = objects b ! i)"
    by simp
next
  fix c :: OrderBook and r :: int and ts :: "Trade list" and k t a
  let ?c = "c\<lparr>objects := (objects c)
             [a := (objects c ! a)\<lparr>quantity := quantity (objects c ! a) - r\<rparr>]\<rparr>"
  assume P: "same_frame b c \<and>
         (side ord = BUY \<longrightarrow> buy_orders c = buy_orders b) \<and>
         (side ord \<noteq> BUY \<longrightarrow> sell_orders c = sell_orders b) \<and>
         mset (opposite (side ord) c) \<subseteq># mset (opposite (side ord) b) \<and>
         orders_by_id c \<subseteq>\<^sub>m orders_by_id b \<and>
         (\<forall>i. i \<notin> addr ` set (opposite (side ord) b) \<longrightarrow> objects c ! i = objects b ! i)"
    and ne: "opposite (side ord) c \<noteq> []" and hd: "hd (opposite (side ord) c) = (k, t, a)"
  from ne hd have "(k, t, a) \<in> set (opposite (side ord) c)" by (metis hd_in_set)
  with P have "(k, t, a) \<in> set (opposite (side ord) b)"
    by (metis set_mset_mono set_mset_mset subsetD)
  then have a: "a \<in> addr ` set (opposite (side ord) b)" by (force simp: addr_def)
  have f: "same_frame c ?c" by (simp add: same_frame_def)
  with P have "same_frame b ?c" by (blast intro: same_frame_trans)
  moreover have "opposite (side ord) ?c = opposite (side ord) c" by (simp add: opposite_def)
  moreover have "\<forall>i. i \<notin> addr ` set (opposite (side ord) b) \<longrightarrow> objects ?c ! i = objects b ! i"
  proof (intro allI impI)
    fix i assume i: "i \<notin> addr ` set (opposite (side ord) b)"
    with a have "i \<noteq> a" by blast
    then have "objects ?c ! i = objects c ! i" by simp
    with P i show "objects ?c ! i = objects b ! i" by simp
  qed
  ultimately show "same_frame b ?c \<and>
         (side ord = BUY \<longrightarrow> buy_orders ?c = buy_orders b) \<and>
         (side ord \<noteq> BUY \<longrightarrow> sell_orders ?c = sell_orders b) \<and>
         mset (opposite (side ord) ?c) \<subseteq># mset (opposite (side ord) b) \<and>
         orders_by_id ?c \<subseteq>\<^sub>m orders_by_id b \<and>
         (\<forall>i. i \<notin> addr ` set (opposite (side ord) b) \<longrightarrow> objects ?c ! i = objects b ! i)"
    using P by simp
qed


lemma is_heap_hd_le:
  assumes "is_heap xs" "e \<in> set xs"
  shows "fst (hd xs) \<le> fst e"
proof -
  from assms(2) obtain j where j: "j < length xs" "xs ! j = e" by (auto simp: in_set_conv_nth)
  then have "xs \<noteq> []" by auto
  then have "hd xs = xs ! 0" by (rule hd_conv_nth)
  with is_heap_top [OF assms(1) j(1)] j(2) show ?thesis by (auto simp: key_le_def)
qed

lemma record_trades_fields:
  "buy_orders (record_trades b ts) = buy_orders b \<and>
   sell_orders (record_trades b ts) = sell_orders b \<and>
   orders_by_id (record_trades b ts) = orders_by_id b \<and>
   client_orders (record_trades b ts) = client_orders b \<and>
   book_symbol (record_trades b ts) = book_symbol b \<and>
   objects (record_trades b ts) = objects b \<and>
   trades (record_trades b ts) = trades b @ ts \<and>
   total_volume (record_trades b ts) = total_volume b + sum_list (map trade_quantity ts) \<and>
   total_trades (record_trades b ts) = total_trades b + int (length ts)"
  unfolding record_trades_def
  by (induction ts arbitrary: b) simp_all

lemma book_inv_record_trades [simp]: "book_inv (record_trades b ts) = book_inv b"
  by (rule book_inv_cong) (simp_all add: record_trades_fields)

text \<open>A limit order that the loop left unfilled rests without crossing the book.\<close>

lemma rest_order_book_inv:
  assumes inv: "book_inv b" and a: "a < length (objects b)"
    and fresh: "a \<notin> addr ` (set (buy_orders b) \<union> set (sell_orders b))"
    and r: "0 < remaining"
    and exit: "opposite (side (objects b ! a)) b = [] \<or>
       price_test True (objects b ! a) (fst (hd (opposite (side (objects b ! a)) b))) = Inr False"
    and rest: "rest_order b a remaining = Inr b'"
  shows "book_inv b'"
proof -
  define objs where "objs = (objects b)[a := (objects b ! a)\<lparr>quantity := remaining\<rparr>]"
  from rest obtain p where p: "price (objects b ! a) = Some p"
    by (auto simp: rest_order_def Let_def split: option.splits)
  have len: "length objs = length (objects b)" by (simp add: objs_def)
  have oa: "objs ! a = (objects b ! a)\<lparr>quantity := remaining\<rparr>" using a by (simp add: objs_def)
  have old: "entry_ok objs s e" if "entry_ok (objects b) s e" "e \<in> set (buy_orders b) \<union> set (sell_orders b)" for s e
  proof -
    from that(2) fresh have "a \<noteq> addr e" by blast
    with that(1) show ?thesis unfolding objs_def by (intro entry_ok_update) simp_all
  qed
  from inv have io: "index_ok (b\<lparr>objects := objs\<rparr>)"
    unfolding book_inv_def index_ok_def objs_def by simp
  from inv fresh have d: "distinct (map addr (buy_orders b @ sell_orders b))"
    "a \<notin> set (map addr (buy_orders b @ sell_orders b))"
    by (auto simp: book_inv_def)
  show ?thesis
  proof (cases "side (objects b ! a) = BUY")
    case True
    let ?e = "(- p, timestamp (objects b ! a), a)"
    from rest p True oa obtain h where h: "heappush objs (buy_orders b) ?e = Inr h"
      and b': "b' = b\<lparr>objects := objs, buy_orders := h\<rparr>"
      by (auto simp: rest_order_def Let_def objs_def split: sum.splits)
    from heappush_mset [OF h] have m: "mset h = mset (?e # buy_orders b)" by simp
    then have sh: "set h = insert ?e (set (buy_orders b))" by (metis list.simps(15) mset_eq_setD)
    from inv h have hh: "is_heap h" by (auto simp: book_inv_def intro: heappush_heap)
    have new: "entry_ok objs BUY ?e"
      using a True p r oa by (simp add: entry_ok_def addr_def len)
    from m have "mset (map addr (h @ sell_orders b)) = mset (map addr ((?e # buy_orders b) @ sell_orders b))"
      by (metis mset_append mset_map)
    moreover from d have "distinct (map addr ((?e # buy_orders b) @ sell_orders b))"
      by (simp add: addr_def)
    ultimately have dd: "distinct (map addr (h @ sell_orders b))"
      by (metis mset_eq_imp_distinct_iff)
    have cross: "- fst ?e < fst f" if f: "f \<in> set (sell_orders b)" for f
    proof -
      from f True have ne: "opposite (side (objects b ! a)) b \<noteq> []" by (auto simp: opposite_def)
      with exit True p have "p < fst (hd (sell_orders b))"
        by (auto simp: price_test_def opposite_def)
      moreover from inv f have "fst (hd (sell_orders b)) \<le> fst f"
        by (auto simp: book_inv_def intro: is_heap_hd_le)
      ultimately show ?thesis by simp
    qed
    have e1: "\<forall>e\<in>set h. entry_ok objs BUY e"
      using sh new old inv unfolding book_inv_def by auto
    have e2: "\<forall>e\<in>set (sell_orders b). entry_ok objs SELL e"
      using old inv unfolding book_inv_def by auto
    have u: "\<forall>e\<in>set h. \<forall>f\<in>set (sell_orders b). - fst e < fst f"
      using sh cross inv unfolding book_inv_def uncrossed_def by auto
    have "index_ok (b\<lparr>objects := objs, buy_orders := h\<rparr>)"
      using io by (simp add: index_ok_def)
    with hh inv dd e1 e2 u show ?thesis
      unfolding b' by (simp add: book_inv_def uncrossed_def)
  next
    case False
    let ?e = "(p, timestamp (objects b ! a), a)"
    from rest p False oa obtain h where h: "heappush objs (sell_orders b) ?e = Inr h"
      and b': "b' = b\<lparr>objects := objs, sell_orders := h\<rparr>"
      by (auto simp: rest_order_def Let_def objs_def split: sum.splits)
    from False have S: "side (objects b ! a) = SELL" by (cases "side (objects b ! a)") auto
    from heappush_mset [OF h] have m: "mset h = mset (?e # sell_orders b)" by simp
    then have sh: "set h = insert ?e (set (sell_orders b))" by (metis list.simps(15) mset_eq_setD)
    from inv h have hh: "is_heap h" by (auto simp: book_inv_def intro: heappush_heap)
    have new: "entry_ok objs SELL ?e"
      using a S p r oa by (simp add: entry_ok_def addr_def len)
    from m have "mset (map addr (buy_orders b @ h)) = mset (map addr (buy_orders b @ (?e # sell_orders b)))"
      by (metis mset_append mset_map)
    moreover from d have "distinct (map addr (buy_orders b @ (?e # sell_orders b)))"
      by (simp add: addr_def)
    ultimately have dd: "distinct (map addr (buy_orders b @ h))"
      by (metis mset_eq_imp_distinct_iff)
    have cross: "- fst e < fst ?e" if e: "e \<in> set (buy_orders b)" for e
    proof -
      from e False have ne: "opposite (side (objects b ! a)) b \<noteq> []" by (auto simp: opposite_def)
      with exit False p have "- fst (hd (buy_orders b)) < p"
        by (auto simp: price_test_def opposite_def)
      moreover from inv e have "fst (hd (buy_orders b)) \<le> fst e"
        by (auto simp: book_inv_def intro: is_heap_hd_le)
      ultimately show ?thesis by simp
    qed
    have e1: "\<forall>e\<in>set h. entry_ok objs SELL e"
      using sh new old inv unfolding book_inv_def by auto
    have e2: "\<forall>e\<in>set (buy_orders b). entry_ok objs BUY e"
      using old inv unfolding book_inv_def by auto
    have u: "\<forall>e\<in>set (buy_orders b). \<forall>f\<in>set h. - fst e < fst f"
      using sh cross inv unfolding book_inv_def uncrossed_def by auto
    have "index_ok (b\<lparr>objects := objs, sell_orders := h\<rparr>)"
      using io by (simp add: index_ok_def)
    with hh inv dd e1 e2 u show ?thesis
      unfolding b' by (simp add: book_inv_def uncrossed_def)
  qed
qed

lemma book_inv_alloc:
  assumes "book_inv b"
  shows "book_inv (b\<lparr>objects := objects b @ [ord],
                    orders_by_id := (orders_by_id b)(order_id ord \<mapsto> length (objects b)),
                    client_orders := f\<rparr>)"
proof -
  have e: "entry_ok (objects b @ [ord]) s e" if "entry_ok (objects b) s e" for s e
    using that by (auto simp: entry_ok_def nth_append)
  have "index_ok (b\<lparr>objects := objects b @ [ord],
                    orders_by_id := (orders_by_id b)(order_id ord \<mapsto> length (objects b)),
                    client_orders := f\<rparr>)"
  proof -
    from assms have io: "index_ok b" by (simp add: book_inv_def)
    show ?thesis
      unfolding index_ok_def
    proof (intro allI impI)
      fix k a
      assume "orders_by_id (b\<lparr>objects := objects b @ [ord],
                    orders_by_id := (orders_by_id b)(order_id ord \<mapsto> length (objects b)),
                    client_orders := f\<rparr>) k = Some a"
      then have "(k = order_id ord \<and> a = length (objects b)) \<or> orders_by_id b k = Some a"
        by (simp split: if_splits)
      then show "a < length (objects (b\<lparr>objects := objects b @ [ord],
                    orders_by_id := (orders_by_id b)(order_id ord \<mapsto> length (objects b)),
                    client_orders := f\<rparr>)) \<and>
           order_id (objects (b\<lparr>objects := objects b @ [ord],
                    orders_by_id := (orders_by_id b)(order_id ord \<mapsto> length (objects b)),
                    client_orders := f\<rparr>) ! a) = k"
      proof
        assume "k = order_id ord \<and> a = length (objects b)"
        then show ?thesis by simp
      next
        assume "orders_by_id b k = Some a"
        with io have "a < length (objects b)" "order_id (objects b ! a) = k"
          by (auto simp: index_ok_def)
        then show ?thesis by (simp add: nth_append)
      qed
    qed
  qed
  with assms e show ?thesis
    by (simp add: book_inv_def uncrossed_def)
qed

lemma process_market_order_book_inv:
  assumes "book_inv b" "process_market_order b a = Inr (ts, b')"
  shows "book_inv b'"
  using assms
  by (auto simp: process_market_order_def Let_def split: sum.splits dest: match_loop_book_inv)

lemma process_limit_order_book_inv:
  assumes inv: "book_inv b" and a: "a < length (objects b)"
    and fresh: "a \<notin> addr ` (set (buy_orders b) \<union> set (sell_orders b))"
    and run: "process_limit_order b a = Inr (ts, b')"
  shows "book_inv b'"
proof -
  let ?ord = "objects b ! a"
  from run obtain b1 r ts1 where
    loop: "match_loop True ?ord b (quantity ?ord) [] = Inr (b1, r, ts1)"
    by (auto simp: process_limit_order_def Let_def split: sum.splits)
  note inv1 = match_loop_book_inv [OF loop inv]
  note fr = match_loop_frame [OF loop]
  show ?thesis
  proof (cases "r > 0")
    case False
    with run loop have "b' = record_trades b1 ts1"
      by (auto simp: process_limit_order_def Let_def)
    with inv1 show ?thesis by simp
  next
    case True
    with run loop obtain b2 where rest: "rest_order b1 a r = Inr b2"
      and b': "b' = record_trades b2 ts1"
      by (auto simp: process_limit_order_def Let_def split: sum.splits)
    from fr have sub: "set (opposite (side ?ord) b1) \<subseteq> set (opposite (side ?ord) b)"
      by (metis set_mset_mono set_mset_mset)
    from fr have own: "side ?ord = BUY \<longrightarrow> buy_orders b1 = buy_orders b"
      "side ?ord \<noteq> BUY \<longrightarrow> sell_orders b1 = sell_orders b" by auto
    from sub own fresh have fresh1: "a \<notin> addr ` (set (buy_orders b1) \<union> set (sell_orders b1))"
      by (cases "side ?ord = BUY") (auto simp: opposite_def)
    from fresh have "a \<notin> addr ` set (opposite (side ?ord) b)" by (auto simp: opposite_def)
    with fr have same: "objects b1 ! a = ?ord" by blast
    from fr a have a1: "a < length (objects b1)" by (simp add: same_frame_def)
    from match_loop_exit [OF loop True] same
    have "opposite (side (objects b1 ! a)) b1 = [] \<or>
       price_test True (objects b1 ! a) (fst (hd (opposite (side (objects b1 ! a)) b1))) = Inr False"
      by simp
    from rest_order_book_inv [OF inv1 a1 fresh1 True this rest] b' show ?thesis by simp
  qed
qed

lemma mset_remove_nth_subset: "mset (take i xs @ drop (Suc i) xs) \<subseteq># mset xs"
proof (cases "i < length xs")
  case True
  then have "xs = take i xs @ xs ! i # drop (Suc i) xs" by (rule id_take_nth_drop)
  then have "mset xs = mset (take i xs @ drop (Suc i) xs) + {#xs ! i#}"
    by (metis mset.simps(2) mset_append union_mset_add_mset_right add_mset_add_single)
  then show ?thesis by simp
next
  case False
  then show ?thesis by simp
qed

lemma remove_entry_heap:
  assumes "remove_entry objs oid heap = Inr h" "is_heap heap"
  shows "is_heap h \<and> mset h \<subseteq># mset heap"
proof (cases "find_entry objs oid heap")
  case None
  with assms show ?thesis by (simp add: remove_entry_def)
next
  case (Some i)
  with assms(1) have h: "heapify objs (take i heap @ drop (Suc i) heap) = Inr h"
    by (simp add: remove_entry_def)
  from heapify_mset [OF h] mset_remove_nth_subset [of i heap]
  have "mset h \<subseteq># mset heap" by simp
  with heapify_heap [OF h] show ?thesis by simp
qed

lemma cancel_order_book_inv:
  assumes inv: "book_inv b" and run: "cancel_order b c = Inr (ts, b')"
  shows "book_inv b'"
proof (cases "orders_by_id b (order_id c)")
  case None
  with run inv show ?thesis by (simp add: cancel_order_def)
next
  case (Some a)
  let ?o = "objects b ! a"
  from inv have hb: "is_heap (buy_orders b)" and hs: "is_heap (sell_orders b)"
    by (simp_all add: book_inv_def)
  show ?thesis
  proof (cases "side ?o = BUY")
    case True
    with run Some obtain h where h: "remove_entry (objects b) (order_id c) (buy_orders b) = Inr h"
      and b': "b' = b\<lparr>buy_orders := h, orders_by_id := (orders_by_id b)(order_id ?o := None)\<rparr>"
      by (auto simp: cancel_order_def Let_def split: sum.splits if_splits)
    from remove_entry_heap [OF h hb] have "is_heap h" "mset h \<subseteq># mset (buy_orders b)" by auto
    with inv hs have "book_inv (b\<lparr>buy_orders := h, sell_orders := sell_orders b,
        orders_by_id := (orders_by_id b)(order_id ?o := None)\<rparr>)"
      by (intro book_inv_shrink) (simp_all split: if_splits)
    then show ?thesis unfolding b' by simp
  next
    case False
    with run Some obtain h where h: "remove_entry (objects b) (order_id c) (sell_orders b) = Inr h"
      and b': "b' = b\<lparr>sell_orders := h, orders_by_id := (orders_by_id b)(order_id ?o := None)\<rparr>"
      by (auto simp: cancel_order_def Let_def split: sum.splits if_splits)
    from remove_entry_heap [OF h hs] have "is_heap h" "mset h \<subseteq># mset (sell_orders b)" by auto
    with inv hb have "book_inv (b\<lparr>buy_orders := buy_orders b, sell_orders := h,
        orders_by_id := (orders_by_id b)(order_id ?o := None)\<rparr>)"
      by (intro book_inv_shrink) (simp_all split: if_splits)
    then show ?thesis unfolding b' by simp
  qed
qed

lemma add_order_book_inv:
  assumes inv: "book_inv b" and run: "add_order b ord = Inr (ts, b')"
  shows "book_inv b'"
proof (cases "order_type ord = CANCEL")
  case True
  with run inv show ?thesis by (auto simp: add_order_def dest: cancel_order_book_inv)
next
  case False
  let ?a = "length (objects b)"
  let ?b = "store_order b ord"
  from inv have inv1: "book_inv ?b" unfolding store_order_def by (rule book_inv_alloc)
  show ?thesis
  proof (cases "order_type ord = MARKET")
    case True
    with run have "process_market_order ?b ?a = Inr (ts, b')"
      by (simp add: add_order_def Let_def)
    with inv1 show ?thesis by (rule process_market_order_book_inv)
  next
    case nm: False
    with run False have r: "process_limit_order ?b ?a = Inr (ts, b')"
      by (simp add: add_order_def Let_def)
    from inv have "\<forall>e\<in>set (buy_orders b) \<union> set (sell_orders b). addr e < ?a"
      by (auto simp: book_inv_def entry_ok_def)
    then have "?a \<notin> addr ` (set (buy_orders ?b) \<union> set (sell_orders ?b))"
      by (auto simp: store_order_def)
    with inv1 _ show ?thesis using r
      by (rule process_limit_order_book_inv) (simp add: store_order_def)
  qed
qed

lemma add_orders_book_inv:
  "add_orders b ords = Inr b' \<Longrightarrow> book_inv b \<Longrightarrow> book_inv b'"
proof (induction ords arbitrary: b)
  case Nil
  then show ?case by simp
next
  case (Cons ord ords)
  from Cons.prems(1) obtain ts b1 where s: "add_order b ord = Inr (ts, b1)"
    and r: "add_orders b1 ords = Inr b'"
    by (auto split: sum.splits)
  from add_order_book_inv [OF Cons.prems(2) s] Cons.IH [OF r] show ?case by simp
qed

lemma reachable_book_inv: "add_orders (new_book s) ords = Inr b \<Longrightarrow> book_inv b"
  by (erule add_orders_book_inv) (rule book_inv_new_book)

section \<open>Example requests\<close>

definition limit_order :: "string \<Rightarrow> OrderSide \<Rightarrow> int \<Rightarrow> rat \<Rightarrow> rat \<Rightarrow> Order" where
  "limit_order i s q p t =
     \<lparr>order_id = i, client_id = ''c1'', symbol = ''AAPL'', side = s, order_type = LIMIT,
      quantity = q, price = Some p, timestamp = t\<rparr>"

definition market_order :: "string \<Rightarrow> OrderSide \<Rightarrow> int \<Rightarrow> rat \<Rightarrow> Order" where
  "market_order i s q t =
     \<lparr>order_id = i, client_id = ''c1'', symbol = ''AAPL'', side = s, order_type = MARKET,
      quantity = q, price = None, timestamp = t\<rparr>"

definition cancel_request :: "string \<Rightarrow> Order" where
  "cancel_request i =
     \<lparr>order_id = i, client_id = ''c1'', symbol = ''AAPL'', side = BUY, order_type = CANCEL,
      quantity = 0, price = None, timestamp = 0\<rparr>"

definition book_after :: "Order list \<Rightarrow> OrderBook" where
  "book_after ords = (case add_orders (new_book ''AAPL'') ords of Inr b \<Rightarrow> b | Inl e \<Rightarrow> new_book ''AAPL'')"

lemmas eval_defs = add_order_def store_order_def cancel_order_def remove_entry_def heapify_def siftup_def
  bubble.simps siftdown.simps smaller_child_def tuple_lt_def exchange_def heappush_def
  heappop_def match_loop.simps process_limit_order_def process_market_order_def rest_order_def
  record_trades_def price_test_def make_trade_def opposite_def set_opposite_def new_book_def
  limit_order_def market_order_def cancel_request_def Let_def get_best_bid_def get_best_ask_def

section \<open>The claims\<close>



text \<open>
  C5. The id index is not a bijection onto the resting orders: \<open>add_order\<close> stores every
  MARKET and LIMIT order under its id before processing it, and only resting orders that
  are filled or cancelled are deleted again. A market order, and a limit order that is
  filled completely on arrival, stay indexed with no entry on either heap.
\<close>
theorem index_keeps_unrested_orders:
  "(\<exists>b. add_order (new_book ''AAPL'') (market_order ''M1'' BUY 5 1) = Inr ([], b) \<and>
        buy_orders b = [] \<and> sell_orders b = [] \<and> orders_by_id b ''M1'' = Some 0) \<and>
   (\<exists>b. add_orders (new_book ''AAPL'')
          [limit_order ''S1'' SELL 50 150 1, limit_order ''B1'' BUY 50 150 2] = Inr b \<and>
        buy_orders b = [] \<and> sell_orders b = [] \<and> orders_by_id b ''B1'' = Some 1)"
  by (simp add: eval_defs)

text \<open>
  C6. \<open>add_order\<close> raises on well-formed orders: a second order with the price and the
  timestamp of a resting one makes \<open>heappush\<close> compare the two \<open>Order\<close> objects
  (TypeError), and filling two resting orders that share an id deletes the id twice
  (KeyError).
\<close>
theorem add_order_raises:
  "add_orders (new_book ''AAPL'')
     [limit_order ''B1'' BUY 10 100 1, limit_order ''B2'' BUY 10 100 1] = Inl TypeError \<and>
   add_orders (new_book ''AAPL'')
     [limit_order ''S1'' SELL 10 100 1, limit_order ''S1'' SELL 10 101 2,
      limit_order ''B1'' BUY 30 101 3] = Inl KeyError"
  by (simp add: eval_defs)



text \<open>
  The spec's \<open>best_bid\<close> and \<open>best_ask\<close>, following the spec's words: the best price of the
  side with the quantity aggregated across all resting orders whose price equals that
  best price, and nothing on an empty side. The key of a buy entry is the negated price.
\<close>

definition level_quantity :: "Order list \<Rightarrow> entry list \<Rightarrow> rat \<Rightarrow> int" where
  "level_quantity objs heap k =
     sum_list (map (\<lambda>e. quantity (objs ! addr e)) (filter (\<lambda>e. fst e = k) heap))"


definition spec_best_ask :: "OrderBook \<Rightarrow> (rat \<times> int) option" where
  "spec_best_ask b =
     (if sell_orders b = [] then None
      else let k = Min (fst ` set (sell_orders b))
           in Some (k, level_quantity (objects b) (sell_orders b) k))"







subsection \<open>The steps of one \<open>add_order\<close> call\<close>

lemma add_order_steps:
  assumes "add_order b ord = Inr (ts, b')" "order_type ord \<noteq> CANCEL"
  obtains b1 r where
    "match_loop (order_type ord \<noteq> MARKET) ord (store_order b ord) (quantity ord) [] = Inr (b1, r, ts)"
    "order_type ord = MARKET \<or> r \<le> 0 \<Longrightarrow> b' = record_trades b1 ts"
    "order_type ord \<noteq> MARKET \<Longrightarrow> 0 < r \<Longrightarrow>
       \<exists>b2. rest_order b1 (length (objects b)) r = Inr b2 \<and> b' = record_trades b2 ts"
proof -
  have o: "objects (store_order b ord) ! length (objects b) = ord"
    by (simp add: store_order_def)
  show ?thesis
  proof (cases "order_type ord = MARKET")
    case True
    with assms o obtain b1 r where
      "match_loop False ord (store_order b ord) (quantity ord) [] = Inr (b1, r, ts)"
      "b' = record_trades b1 ts"
      by (auto simp: add_order_def process_market_order_def Let_def split: sum.splits)
    with True that show ?thesis by simp
  next
    case False
    with assms o obtain b1 r where
      l: "match_loop True ord (store_order b ord) (quantity ord) [] = Inr (b1, r, ts)"
      and "\<not> 0 < r \<Longrightarrow> b' = record_trades b1 ts"
      and "0 < r \<Longrightarrow> \<exists>b2. rest_order b1 (length (objects b)) r = Inr b2 \<and> b' = record_trades b2 ts"
      by (auto simp: add_order_def process_limit_order_def Let_def split: sum.splits if_splits)
    with False that show ?thesis by (simp add: not_less)
  qed
qed

lemma book_inv_addr_bound:
  "book_inv b \<Longrightarrow> e \<in> set (buy_orders b) \<union> set (sell_orders b) \<Longrightarrow> addr e < length (objects b)"
  by (auto simp: book_inv_def entry_ok_def)

lemma match_loop_heaps_subset:
  assumes "match_loop limit ord b r ts = Inr (b', r', ts')"
  shows "mset (buy_orders b') \<subseteq># mset (buy_orders b) \<and>
         mset (sell_orders b') \<subseteq># mset (sell_orders b)"
  using match_loop_frame [OF assms] by (cases "side ord = BUY") (auto simp: opposite_def)

definition resting_ids :: "OrderBook \<Rightarrow> string list" where
  "resting_ids b = map (\<lambda>e. order_id (objects b ! addr e)) (buy_orders b @ sell_orders b)"

text \<open>
  C7 as stated fails: a market order that carries the id of a resting order and does
  not fill it completely leaves that resting order, with the market order's id, on the
  book.
\<close>

theorem market_order_id_still_resting:
  "add_orders (new_book ''AAPL'')
     [limit_order ''B1'' BUY 10 100 1, market_order ''B1'' SELL 4 2] =
   Inr (book_after [limit_order ''B1'' BUY 10 100 1, market_order ''B1'' SELL 4 2]) \<and>
   order_type (market_order ''B1'' SELL 4 2) = MARKET \<and>
   order_id (market_order ''B1'' SELL 4 2) \<in>
     set (resting_ids (book_after [limit_order ''B1'' BUY 10 100 1, market_order ''B1'' SELL 4 2]))"
  by (simp add: book_after_def eval_defs resting_ids_def addr_def)

text \<open>
  C7, amended. On every book reached from a new one, processing a MARKET order adds no
  entry to either heap: the order object itself rests on neither side, every resting
  entry was resting before, and if no resting order had the market order's id before the
  call then none has it afterwards.
\<close>

theorem market_order_never_rests:
  assumes "add_orders (new_book s) ords = Inr b" "order_type m = MARKET"
    "add_order b m = Inr (ts, b')"
  shows "mset (buy_orders b') \<subseteq># mset (buy_orders b) \<and>
         mset (sell_orders b') \<subseteq># mset (sell_orders b) \<and>
         length (objects b) \<notin> addr ` set (buy_orders b' @ sell_orders b') \<and>
         (order_id m \<notin> set (resting_ids b) \<longrightarrow> order_id m \<notin> set (resting_ids b'))"
proof -
  from assms(1) have inv: "book_inv b" by (rule reachable_book_inv)
  from assms(2) have nc: "order_type m \<noteq> CANCEL" by simp
  from assms(3) nc obtain b1 r where
    loop: "match_loop (order_type m \<noteq> MARKET) m (store_order b m) (quantity m) [] = Inr (b1, r, ts)"
    and b': "b' = record_trades b1 ts"
    using assms(2) by (auto elim!: add_order_steps)
  from match_loop_heaps_subset [OF loop] b'
  have sub: "mset (buy_orders b') \<subseteq># mset (buy_orders b)"
    "mset (sell_orders b') \<subseteq># mset (sell_orders b)"
    by (simp_all add: record_trades_fields store_order_def)
  then have ss: "set (buy_orders b' @ sell_orders b') \<subseteq> set (buy_orders b) \<union> set (sell_orders b)"
    using set_mset_mono by fastforce
  with inv have bound: "\<forall>e \<in> set (buy_orders b' @ sell_orders b'). addr e < length (objects b)"
    by (blast dest: book_inv_addr_bound)
  then have fresh: "length (objects b) \<notin> addr ` set (buy_orders b' @ sell_orders b')" by auto
  have ids: "order_id (objects b' ! addr e) = order_id (objects b ! addr e)"
    if "e \<in> set (buy_orders b' @ sell_orders b')" for e
  proof -
    from that bound have "addr e < length (objects b)" by blast
    then have "objects (store_order b m) ! addr e = objects b ! addr e"
      by (simp add: store_order_def nth_append)
    moreover from match_loop_frame [OF loop]
    have "order_id (objects b1 ! addr e) = order_id (objects (store_order b m) ! addr e)"
      by (simp add: same_frame_def)
    ultimately show ?thesis by (simp add: b' record_trades_fields)
  qed
  have "set (resting_ids b') \<subseteq> set (resting_ids b)"
  proof
    fix x assume "x \<in> set (resting_ids b')"
    then obtain e where e: "e \<in> set (buy_orders b' @ sell_orders b')"
      "x = order_id (objects b' ! addr e)" by (auto simp: resting_ids_def)
    with ids have "x = order_id (objects b ! addr e)" by simp
    moreover from e ss have "e \<in> set (buy_orders b @ sell_orders b)" by auto
    ultimately show "x \<in> set (resting_ids b)" unfolding resting_ids_def by force
  qed
  with sub fresh show ?thesis by blast
qed

theorem market_order_never_rests_witness:
  "add_orders (new_book ''AAPL'') [limit_order ''S1'' SELL 5 150 1] =
     Inr (book_after [limit_order ''S1'' SELL 5 150 1]) \<and>
   order_type (market_order ''M1'' BUY 20 2) = MARKET \<and>
   add_order (book_after [limit_order ''S1'' SELL 5 150 1]) (market_order ''M1'' BUY 20 2) =
     Inr ([\<lparr>buy_order_id = ''M1'', sell_order_id = ''S1'', trade_symbol = ''AAPL'',
            trade_quantity = 5, trade_price = 150\<rparr>],
          book_after [limit_order ''S1'' SELL 5 150 1, market_order ''M1'' BUY 20 2]) \<and>
   order_id (market_order ''M1'' BUY 20 2) \<notin>
     set (resting_ids (book_after [limit_order ''S1'' SELL 5 150 1, market_order ''M1'' BUY 20 2]))"
proof -
  let ?b = "book_after [limit_order ''S1'' SELL 5 150 1]"
  let ?b' = "book_after [limit_order ''S1'' SELL 5 150 1, market_order ''M1'' BUY 20 2]"
  have r: "add_orders (new_book ''AAPL'') [limit_order ''S1'' SELL 5 150 1] = Inr ?b"
    by (simp add: book_after_def eval_defs)
  have m: "order_type (market_order ''M1'' BUY 20 2) = MARKET" by (simp add: market_order_def)
  have a: "add_order ?b (market_order ''M1'' BUY 20 2) =
     Inr ([\<lparr>buy_order_id = ''M1'', sell_order_id = ''S1'', trade_symbol = ''AAPL'',
            trade_quantity = 5, trade_price = 150\<rparr>], ?b')"
    by (simp add: book_after_def eval_defs)
  have n: "order_id (market_order ''M1'' BUY 20 2) \<notin> set (resting_ids ?b)"
    by (simp add: book_after_def eval_defs resting_ids_def addr_def)
  from market_order_never_rests [OF r m a] n
  have "order_id (market_order ''M1'' BUY 20 2) \<notin> set (resting_ids ?b')" by blast
  with r m a show ?thesis by blast
qed






end
